theory Spec2Isabelle
  imports Main
begin

section \<open>Values, text and dictionaries of the Python source\<close>

text \<open>
  The engine of \<^verbatim>\<open>detector_full_candidate_name.py\<close> works on one parsed JSON object at a
  time. A Python \<^verbatim>\<open>str\<close> is a sequence of code points; a \<^typ>\<open>char\<close> of this theory
  stands for a code point below 256, and the character classes below are the ones
  Python's \<^verbatim>\<open>re\<close> and \<^verbatim>\<open>str\<close> use on that range.
\<close>

definition code :: "char \<Rightarrow> nat" where
  "code c = of_char c"

definition in_range :: "nat \<Rightarrow> nat \<Rightarrow> char \<Rightarrow> bool" where
  "in_range lo hi c = (lo \<le> code c \<and> code c \<le> hi)"

definition is_upper :: "char \<Rightarrow> bool" where
  \<comment> \<open>the class \<^verbatim>\<open>[A-Z]\<close>\<close>
  "is_upper c = in_range 65 90 c"

definition is_lower :: "char \<Rightarrow> bool" where
  \<comment> \<open>the class \<^verbatim>\<open>[a-z]\<close>\<close>
  "is_lower c = in_range 97 122 c"

definition is_alpha :: "char \<Rightarrow> bool" where
  \<comment> \<open>the class \<^verbatim>\<open>[A-Za-z]\<close>\<close>
  "is_alpha c = (is_upper c \<or> is_lower c)"

definition is_digit :: "char \<Rightarrow> bool" where
  \<comment> \<open>\<^verbatim>\<open>\d\<close> and \<^verbatim>\<open>[0-9]\<close>: below code point 256 the only decimal digits are 0 to 9\<close>
  "is_digit c = in_range 48 57 c"

definition is_word :: "char \<Rightarrow> bool" where
  \<comment> \<open>\<^verbatim>\<open>\w\<close> of a str pattern: alphanumeric code points and the underscore\<close>
  "is_word c =
     (is_digit c \<or> is_alpha c \<or> code c = 95 \<or> code c = 170 \<or> in_range 178 179 c
      \<or> code c = 181 \<or> in_range 185 186 c \<or> in_range 188 190 c \<or> in_range 192 214 c
      \<or> in_range 216 246 c \<or> in_range 248 255 c)"

definition is_space :: "char \<Rightarrow> bool" where
  \<comment> \<open>the whitespace of \<^verbatim>\<open>str.split()\<close> and \<^verbatim>\<open>str.strip()\<close>\<close>
  "is_space c = (in_range 9 13 c \<or> in_range 28 32 c \<or> code c = 133 \<or> code c = 160)"

definition lower_char :: "char \<Rightarrow> char" where
  "lower_char c =
     (if is_upper c \<or> (in_range 192 222 c \<and> code c \<noteq> 215) then char_of (code c + 32) else c)"

definition lower :: "string \<Rightarrow> string" where
  \<comment> \<open>\<^verbatim>\<open>str.lower()\<close>\<close>
  "lower s = map lower_char s"

definition strip :: "string \<Rightarrow> string" where
  \<comment> \<open>\<^verbatim>\<open>str.strip()\<close>\<close>
  "strip s = rev (dropWhile is_space (rev (dropWhile is_space s)))"

fun split_ws :: "string \<Rightarrow> string \<Rightarrow> string list" where
  \<comment> \<open>\<^verbatim>\<open>str.split()\<close>: the maximal runs of non-whitespace; the first argument is the
      run being read\<close>
  "split_ws cur [] = (if cur = [] then [] else [cur])"
| "split_ws cur (c # cs) =
     (if is_space c then (if cur = [] then [] else [cur]) @ split_ws [] cs
      else split_ws (cur @ [c]) cs)"

fun split_on :: "char \<Rightarrow> string \<Rightarrow> string \<Rightarrow> string list" where
  \<comment> \<open>\<^verbatim>\<open>str.split(sep)\<close> for a one-character separator: every piece, empty ones too\<close>
  "split_on sep cur [] = [cur]"
| "split_on sep cur (c # cs) =
     (if c = sep then cur # split_on sep [] cs else split_on sep (cur @ [c]) cs)"

definition split_first :: "char \<Rightarrow> string \<Rightarrow> string \<times> string" where
  \<comment> \<open>\<^verbatim>\<open>str.split(sep, 1)\<close> on a string that contains the separator\<close>
  "split_first sep s = (takeWhile (\<lambda>c. c \<noteq> sep) s, drop 1 (dropWhile (\<lambda>c. c \<noteq> sep) s))"

definition join :: "string \<Rightarrow> string list \<Rightarrow> string" where
  \<comment> \<open>\<^verbatim>\<open>sep.join(parts)\<close>\<close>
  "join sep parts = (case parts of [] \<Rightarrow> [] | p # ps \<Rightarrow> p @ concat (map (\<lambda>q. sep @ q) ps))"

fun replace_from :: "string \<Rightarrow> string \<Rightarrow> string \<Rightarrow> string" where
  \<comment> \<open>the scan of \<^verbatim>\<open>str.replace(old, new)\<close> for a non-empty \<^verbatim>\<open>old\<close>: left to right,
      occurrences do not overlap. After a hit at \<open>c # cs\<close> the scan resumes
      \<open>length old\<close> characters later, that is at \<open>drop (length old - 1) cs\<close>.\<close>
  "replace_from old new [] = []"
| "replace_from old new (c # cs) =
     (if old \<noteq> [] \<and> take (length old) (c # cs) = old
      then new @ replace_from old new (drop (length old - 1) cs)
      else c # replace_from old new cs)"

definition replace :: "string \<Rightarrow> string \<Rightarrow> string \<Rightarrow> string" where
  \<comment> \<open>\<^verbatim>\<open>s.replace(old, new)\<close>; an empty \<^verbatim>\<open>old\<close> matches between all characters\<close>
  "replace s old new =
     (if old = [] then new @ concat (map (\<lambda>c. c # new) s) else replace_from old new s)"

definition last_n :: "nat \<Rightarrow> string \<Rightarrow> string" where
  \<comment> \<open>the slice \<^verbatim>\<open>s[-n:]\<close> for \<open>n > 0\<close>\<close>
  "last_n n s = drop (length s - n) s"

subsection \<open>JSON values\<close>

text \<open>
  A field holds text, a number or null. A float is kept as the text \<^verbatim>\<open>repr\<close> gives for
  it: the program only converts a float to text and tests whether it is zero, and zero
  prints as \<^verbatim>\<open>0.0\<close> or \<^verbatim>\<open>-0.0\<close>.
\<close>

datatype jvalue = JStr string | JInt int | JFloat string | JNull

datatype error = TypeError | IndexError

definition digit_char :: "int \<Rightarrow> char" where
  "digit_char d = ''0123456789'' ! nat d"

function digits :: "int \<Rightarrow> string" where
  \<comment> \<open>the decimal digits of a non-negative integer\<close>
  "digits n = (if n < 10 then [digit_char n] else digits (n div 10) @ [digit_char (n mod 10)])"
  by pat_completeness auto
termination
  by (relation "measure nat") auto

definition str_int :: "int \<Rightarrow> string" where
  \<comment> \<open>\<^verbatim>\<open>str(n)\<close> for an integer\<close>
  "str_int n = (if n < 0 then CHR ''-'' # digits (- n) else digits n)"

fun str :: "jvalue \<Rightarrow> string" where
  \<comment> \<open>\<^verbatim>\<open>str(value)\<close>\<close>
  "str (JStr s) = s"
| "str (JInt n) = str_int n"
| "str (JFloat r) = r"
| "str JNull = ''None''"

fun truthy :: "jvalue \<Rightarrow> bool" where
  \<comment> \<open>the truth value Python gives a value in a condition\<close>
  "truthy (JStr s) = (s \<noteq> [])"
| "truthy (JInt n) = (n \<noteq> 0)"
| "truthy (JFloat r) = (r \<noteq> ''0.0'' \<and> r \<noteq> ''-0.0'')"
| "truthy JNull = False"

fun subscript0 :: "jvalue \<Rightarrow> error + string" where
  \<comment> \<open>\<^verbatim>\<open>value[0]\<close>: only text can be indexed\<close>
  "subscript0 (JStr s) = (case s of [] \<Rightarrow> Inl IndexError | c # _ \<Rightarrow> Inr [c])"
| "subscript0 (JInt n) = Inl TypeError"
| "subscript0 (JFloat r) = Inl TypeError"
| "subscript0 JNull = Inl TypeError"

subsection \<open>Dictionaries\<close>

text \<open>
  A record is a Python dict: keys in insertion order, each key once. Assigning to a key
  that is present keeps its place; assigning to a new key appends it.
\<close>

type_synonym record_data = "(string \<times> jvalue) list"

definition keys :: "record_data \<Rightarrow> string list" where
  "keys d = map fst d"

definition dict_get :: "record_data \<Rightarrow> string \<Rightarrow> jvalue option" where
  "dict_get d k = map_of d k"

definition has_key :: "string \<Rightarrow> record_data \<Rightarrow> bool" where
  \<comment> \<open>\<^verbatim>\<open>k in d\<close>\<close>
  "has_key k d = (dict_get d k \<noteq> None)"

fun dict_set :: "string \<Rightarrow> jvalue \<Rightarrow> record_data \<Rightarrow> record_data" where
  \<comment> \<open>\<^verbatim>\<open>d[k] = v\<close>\<close>
  "dict_set k v [] = [(k, v)]"
| "dict_set k v ((k', v') # d) = (if k' = k then (k, v) # d else (k', v') # dict_set k v d)"

definition present :: "string \<Rightarrow> record_data \<Rightarrow> bool" where
  \<comment> \<open>\<^verbatim>\<open>k in d and d[k]\<close>\<close>
  "present k d = (case dict_get d k of None \<Rightarrow> False | Some v \<Rightarrow> truthy v)"

definition get_str :: "record_data \<Rightarrow> string \<Rightarrow> string" where
  \<comment> \<open>\<^verbatim>\<open>str(d.get(k, ""))\<close>\<close>
  "get_str d k = (case dict_get d k of None \<Rightarrow> [] | Some v \<Rightarrow> str v)"

section \<open>Pattern library\<close>

text \<open>
  The patterns of the source are sequences of atoms: a literal, a character class, the
  assertion \<^verbatim>\<open>\b\<close>, and a greedy repetition of a class (\<^verbatim>\<open>{m,n}\<close>, \<^verbatim>\<open>{m,}\<close>, \<^verbatim>\<open>+\<close>).
  \<open>match_from p s i\<close> lists the end positions of every match of \<open>p\<close> that starts at
  position \<open>i\<close>, in the order a backtracking matcher tries them; the match it reports
  is the first of the leftmost start that has one.
\<close>

datatype atom = Lit char | Cls "char \<Rightarrow> bool" | WordBoundary | Rep "char \<Rightarrow> bool" nat "nat option"

definition word_at :: "string \<Rightarrow> nat \<Rightarrow> bool" where
  "word_at s i = (i < length s \<and> is_word (s ! i))"

definition word_boundary :: "string \<Rightarrow> nat \<Rightarrow> bool" where
  \<comment> \<open>\<^verbatim>\<open>\b\<close>: exactly one of the characters before and at the position is a word character\<close>
  "word_boundary s i = ((0 < i \<and> word_at s (i - 1)) \<noteq> word_at s i)"

fun step :: "atom \<Rightarrow> string \<Rightarrow> nat \<Rightarrow> nat list" where
  "step (Lit c) s i = (if i < length s \<and> s ! i = c then [Suc i] else [])"
| "step (Cls P) s i = (if i < length s \<and> P (s ! i) then [Suc i] else [])"
| "step WordBoundary s i = (if word_boundary s i then [i] else [])"
| "step (Rep P m n) s i =
     (let run = length (takeWhile P (drop i s));
          top = (case n of None \<Rightarrow> run | Some b \<Rightarrow> min b run)
      in if top < m then [] else map (\<lambda>k. i + k) (rev [m..<Suc top]))"

fun match_from :: "atom list \<Rightarrow> string \<Rightarrow> nat \<Rightarrow> nat list" where
  "match_from [] s i = [i]"
| "match_from (a # as) s i = concat (map (match_from as s) (step a s i))"

definition re_search :: "atom list \<Rightarrow> string \<Rightarrow> (nat \<times> nat) option" where
  \<comment> \<open>\<^verbatim>\<open>pattern.search(s)\<close>: start and end of the match, if any\<close>
  "re_search p s =
     (case List.find (\<lambda>i. match_from p s i \<noteq> []) [0..<Suc (length s)] of
        None \<Rightarrow> None
      | Some i \<Rightarrow> Some (i, hd (match_from p s i)))"

definition matches :: "atom list \<Rightarrow> string \<Rightarrow> bool" where
  \<comment> \<open>the truth value of \<^verbatim>\<open>pattern.search(s)\<close>\<close>
  "matches p s = (re_search p s \<noteq> None)"

definition group0 :: "string \<Rightarrow> nat \<times> nat \<Rightarrow> string" where
  \<comment> \<open>\<^verbatim>\<open>match.group(0)\<close>\<close>
  "group0 s m = take (snd m - fst m) (drop (fst m) s)"

definition re_findall :: "atom list \<Rightarrow> string \<Rightarrow> string list" where
  \<comment> \<open>\<^verbatim>\<open>re.findall(p, s)\<close>: scan the start positions from the left, skipping those
      inside the previous match\<close>
  "re_findall p s =
     fst (fold (\<lambda>i (found, resume).
                  if i < resume then (found, resume)
                  else (case match_from p s i of
                          [] \<Rightarrow> (found, resume)
                        | e # _ \<Rightarrow> (found @ [take (e - i) (drop i s)], max e (Suc i))))
               [0..<Suc (length s)] ([], 0))"

definition email_class :: "char \<Rightarrow> bool" where
  \<comment> \<open>\<^verbatim>\<open>[A-Za-z0-9._%+-]\<close>\<close>
  "email_class c = (is_alpha c \<or> is_digit c \<or> c \<in> set ''._%+-'')"

definition domain_class :: "char \<Rightarrow> bool" where
  \<comment> \<open>\<^verbatim>\<open>[A-Za-z0-9.-]\<close>\<close>
  "domain_class c = (is_alpha c \<or> is_digit c \<or> c \<in> set ''.-'')"

definition upi_class :: "char \<Rightarrow> bool" where
  \<comment> \<open>\<^verbatim>\<open>[a-zA-Z0-9._-]\<close>\<close>
  "upi_class c = (is_alpha c \<or> is_digit c \<or> c \<in> set ''._-'')"

definition email_pattern :: "atom list" where
  \<comment> \<open>\<^verbatim>\<open>[A-Za-z0-9._%+-]+@[A-Za-z0-9.-]+\.[A-Za-z]{2,}\<close>\<close>
  "email_pattern =
     [Rep email_class 1 None, Lit CHR ''@'', Rep domain_class 1 None, Lit CHR ''.'',
      Rep is_alpha 2 None]"

definition upi_pattern :: "atom list" where
  \<comment> \<open>\<^verbatim>\<open>\b[a-zA-Z0-9._-]{2,}@[a-zA-Z]{2,}\b\<close>\<close>
  "upi_pattern =
     [WordBoundary, Rep upi_class 2 None, Lit CHR ''@'', Rep is_alpha 2 None, WordBoundary]"

definition passport_pattern :: "atom list" where
  \<comment> \<open>\<^verbatim>\<open>\b[A-Z][0-9]{7}\b\<close>\<close>
  "passport_pattern = [WordBoundary, Cls is_upper, Rep is_digit 7 (Some 7), WordBoundary]"

definition decimal_ten_pattern :: "atom list" where
  \<comment> \<open>\<^verbatim>\<open>\b\d{10}\b\<close>\<close>
  "decimal_ten_pattern = [WordBoundary, Rep is_digit 10 (Some 10), WordBoundary]"

definition decimal_twelve_pattern :: "atom list" where
  \<comment> \<open>\<^verbatim>\<open>\b\d{12}\b\<close>\<close>
  "decimal_twelve_pattern = [WordBoundary, Rep is_digit 12 (Some 12), WordBoundary]"

definition postal_code_pattern :: "atom list" where
  \<comment> \<open>\<^verbatim>\<open>\b\d{6}\b\<close>\<close>
  "postal_code_pattern = [WordBoundary, Rep is_digit 6 (Some 6), WordBoundary]"

definition ten_digits :: "atom list" where
  \<comment> \<open>the inline pattern \<^verbatim>\<open>\d{10}\<close>\<close>
  "ten_digits = [Rep is_digit 10 (Some 10)]"

definition twelve_digits :: "atom list" where
  \<comment> \<open>the inline pattern \<^verbatim>\<open>\d{12}\<close>\<close>
  "twelve_digits = [Rep is_digit 12 (Some 12)]"

definition alpha_run :: "atom list" where
  \<comment> \<open>the inline pattern \<^verbatim>\<open>[A-Za-z]+\<close>\<close>
  "alpha_run = [Rep is_alpha 1 None]"

section \<open>Field identifiers\<close>

text \<open>
  The source keeps each group of field names in a set; the lists below hold the same
  names. Every loop over one of these sets treats each name on its own, so the order in
  which a set is walked does not show in any result.
\<close>

definition PHONE_RELATED_FIELDS :: "string list" where
  "PHONE_RELATED_FIELDS = [''phone'', ''contact'', ''alt_phone'', ''mobile'']"

definition AADHAAR_RELATED_FIELDS :: "string list" where
  "AADHAAR_RELATED_FIELDS = [''aadhar'', ''aadhaar'']"

definition PASSPORT_RELATED_FIELDS :: "string list" where
  "PASSPORT_RELATED_FIELDS = [''passport'']"

definition UPI_RELATED_FIELDS :: "string list" where
  "UPI_RELATED_FIELDS = [''upi'', ''upi_id'']"

definition EMAIL_RELATED_FIELDS :: "string list" where
  "EMAIL_RELATED_FIELDS = [''email'', ''alt_email'', ''username'']"

definition FULL_NAME_FIELDS :: "string list" where
  "FULL_NAME_FIELDS = [''name'']"

definition GIVEN_NAME_FIELD :: string where
  "GIVEN_NAME_FIELD = ''first_name''"

definition SURNAME_FIELD :: string where
  "SURNAME_FIELD = ''last_name''"

definition LOCATION_FIELDS :: "string list" where
  "LOCATION_FIELDS = [''address'']"

definition NETWORK_IP_FIELDS :: "string list" where
  "NETWORK_IP_FIELDS = [''ip'', ''ip_address'']"

definition HARDWARE_ID_FIELDS :: "string list" where
  "HARDWARE_ID_FIELDS = [''device_id'']"

section \<open>Masking functions\<close>

definition REDACTED :: string where
  "REDACTED = ''[REDACTED_PII]''"

definition obfuscate_phone_number :: "string \<Rightarrow> string" where
  "obfuscate_phone_number value_str =
     (case re_search ten_digits value_str of
        None \<Rightarrow> value_str
      | Some match_obj \<Rightarrow>
          let matched_sequence = group0 value_str match_obj
          in replace value_str matched_sequence
               (take 2 matched_sequence @ ''XXXXXX'' @ last_n 2 matched_sequence))"

definition obfuscate_aadhaar_number :: "string \<Rightarrow> string" where
  "obfuscate_aadhaar_number value_str =
     (case re_search twelve_digits value_str of
        None \<Rightarrow> value_str
      | Some match_obj \<Rightarrow>
          let matched_sequence = group0 value_str match_obj
          in replace value_str matched_sequence
               (take 4 matched_sequence @ ''XXXX'' @ last_n 4 matched_sequence))"

definition obfuscate_passport_number :: "string \<Rightarrow> string" where
  "obfuscate_passport_number value_str =
     (case re_search passport_pattern value_str of
        None \<Rightarrow> value_str
      | Some match_obj \<Rightarrow>
          let matched_sequence = group0 value_str match_obj
          in replace value_str matched_sequence (take 1 matched_sequence @ ''XXXXXXX''))"

definition mask_local :: "string \<Rightarrow> string" where
  \<comment> \<open>the rule both handle maskers apply to the part before the first \<^verbatim>\<open>@\<close>\<close>
  "mask_local part = (if length part \<le> 2 then ''XX'' else take 2 part @ ''XXX'')"

definition obfuscate_upi_identifier :: "string \<Rightarrow> string" where
  "obfuscate_upi_identifier value_str =
     (if CHR ''@'' \<notin> set value_str then REDACTED
      else let (username_part, domain_part) = split_first CHR ''@'' value_str
           in mask_local username_part @ ''@'' @ domain_part)"

definition obfuscate_email_address :: "string \<Rightarrow> string" where
  "obfuscate_email_address value_str =
     (if CHR ''@'' \<notin> set value_str then value_str
      else let (local_part, domain_part) = split_first CHR ''@'' value_str
           in mask_local local_part @ ''@'' @ domain_part)"

fun mask_tokens :: "string list \<Rightarrow> error + string list" where
  \<comment> \<open>\<^verbatim>\<open>token[0] + "X" * (len(token) - 1)\<close> for each token; \<^verbatim>\<open>token[0]\<close> raises on an
      empty token\<close>
  "mask_tokens [] = Inr []"
| "mask_tokens (token # rest) =
     (case token of
        [] \<Rightarrow> Inl IndexError
      | c # _ \<Rightarrow>
          (case mask_tokens rest of
             Inl e \<Rightarrow> Inl e
           | Inr masked \<Rightarrow> Inr ((c # replicate (length token - 1) CHR ''X'') # masked)))"

definition obfuscate_personal_name :: "string \<Rightarrow> error + string" where
  "obfuscate_personal_name value_str =
     (let word_tokens = filter (\<lambda>token. token \<noteq> []) (split_ws [] value_str)
      in case mask_tokens word_tokens of
           Inl e \<Rightarrow> Inl e
         | Inr masked \<Rightarrow> Inr (join '' '' masked))"

definition obfuscate_physical_address :: "string \<Rightarrow> string" where
  "obfuscate_physical_address value_str =
     (let postal_code = map_option (group0 value_str) (re_search postal_code_pattern value_str);
          address_prefix = (if 3 \<le> length value_str then take 3 value_str @ ''XXX'' else ''XXX'');
          postal_suffix = (case postal_code of
                             None \<Rightarrow> []
                           | Some code_text \<Rightarrow> if code_text \<noteq> [] then '', '' @ code_text else [])
      in address_prefix @ ''...'' @ postal_suffix)"

definition obfuscate_ip_address :: "string \<Rightarrow> string" where
  \<comment> \<open>unpacking anything but four pieces raises ValueError, which the source catches\<close>
  "obfuscate_ip_address value_str =
     (case split_on CHR ''.'' [] value_str of
        [octet_a, octet_b, octet_c, octet_d] \<Rightarrow> octet_a @ ''.XXX.XXX.'' @ octet_d
      | _ \<Rightarrow> REDACTED)"

definition obfuscate_device_identifier :: "string \<Rightarrow> string" where
  "obfuscate_device_identifier string_value =
     (if length string_value \<le> 6 then ''XXXXXX''
      else take 3 string_value @ ''XXX'' @ last_n 3 string_value)"

section \<open>Detection\<close>

definition appears_as_complete_name :: "string \<Rightarrow> bool" where
  "appears_as_complete_name value_str = (2 \<le> length (re_findall alpha_run value_str))"

definition contains_complete_address :: "record_data \<Rightarrow> bool" where
  "contains_complete_address record_data =
     (let address_content =
            concat (map (\<lambda>field_name. if present field_name record_data
                                        then get_str record_data field_name @ '' '' else [])
                        LOCATION_FIELDS);
          city_value = strip (get_str record_data ''city'');
          state_value = strip (get_str record_data ''state'');
          postal_value = strip (get_str record_data ''pin_code'')
      in address_content \<noteq> [] \<and>
         (city_value \<noteq> [] \<or> state_value \<noteq> [] \<or> postal_value \<noteq> [] \<or>
          matches postal_code_pattern address_content))"

definition any_field :: "string list \<Rightarrow> atom list \<Rightarrow> record_data \<Rightarrow> bool" where
  \<comment> \<open>one loop of the standalone detector: some key whose lowercased name is in the
      given group holds a value whose text the pattern finds a match in\<close>
  "any_field fields pattern record_data =
     list_ex (\<lambda>(field_key, field_value).
                lower field_key \<in> set fields \<and> matches pattern (str field_value))
             record_data"

definition contains_individual_pii :: "record_data \<Rightarrow> bool" where
  "contains_individual_pii record_data =
     (any_field PHONE_RELATED_FIELDS decimal_ten_pattern record_data \<or>
      any_field AADHAAR_RELATED_FIELDS decimal_twelve_pattern record_data \<or>
      any_field PASSPORT_RELATED_FIELDS passport_pattern record_data \<or>
      any_field UPI_RELATED_FIELDS upi_pattern record_data)"

definition has_complete_name :: "record_data \<Rightarrow> bool" where
  "has_complete_name record_data =
     ((list_ex (\<lambda>field_name. present field_name record_data) FULL_NAME_FIELDS \<and>
       (case List.find (\<lambda>field_name. has_key field_name record_data) FULL_NAME_FIELDS of
          None \<Rightarrow> False
        | Some field_name \<Rightarrow> appears_as_complete_name (get_str record_data field_name)))
      \<or> (has_key GIVEN_NAME_FIELD record_data \<and> has_key SURNAME_FIELD record_data \<and>
          present GIVEN_NAME_FIELD record_data \<and> present SURNAME_FIELD record_data))"

definition has_email_address :: "record_data \<Rightarrow> bool" where
  "has_email_address record_data =
     list_ex (\<lambda>field_name. present field_name record_data \<and>
                           matches email_pattern (get_str record_data field_name))
             EMAIL_RELATED_FIELDS"

definition has_device_id :: "record_data \<Rightarrow> bool" where
  "has_device_id record_data = list_ex (\<lambda>field_name. present field_name record_data) HARDWARE_ID_FIELDS"

definition has_user_context :: "record_data \<Rightarrow> bool" where
  "has_user_context record_data =
     (has_complete_name record_data \<or> has_email_address record_data \<or>
      list_ex (\<lambda>field_name. has_key field_name record_data) PHONE_RELATED_FIELDS)"

definition has_ip_address :: "record_data \<Rightarrow> bool" where
  "has_ip_address record_data = list_ex (\<lambda>field_name. present field_name record_data) NETWORK_IP_FIELDS"

definition count_combinatorial_elements :: "record_data \<Rightarrow> nat" where
  "count_combinatorial_elements record_data =
     (if has_complete_name record_data then 1 else 0) +
     (if has_email_address record_data then 1 else 0) +
     (if contains_complete_address record_data then 1 else 0) +
     (if has_device_id record_data \<and> has_user_context record_data then 1 else 0) +
     (if has_ip_address record_data \<and> has_user_context record_data then 1 else 0)"

section \<open>Redaction\<close>

definition redact_field :: "string \<Rightarrow> record_data \<Rightarrow> record_data" where
  \<comment> \<open>one round of the first loop of \<^verbatim>\<open>apply_redaction_rules\<close>. The keys were listed
      from the dict itself, so the lookup finds the key; a null value is skipped.\<close>
  "redact_field field_key redacted_record =
     (case dict_get redacted_record field_key of
        None \<Rightarrow> redacted_record
      | Some field_value \<Rightarrow>
          if field_value = JNull then redacted_record
          else
            let value_string = str field_value;
                field_key_lower = lower field_key;
                r1 = (if field_key_lower \<in> set PHONE_RELATED_FIELDS \<and> matches ten_digits value_string
                      then dict_set field_key (JStr (obfuscate_phone_number value_string)) redacted_record
                      else redacted_record);
                r2 = (if field_key_lower \<in> set AADHAAR_RELATED_FIELDS \<and> matches twelve_digits value_string
                      then dict_set field_key (JStr (obfuscate_aadhaar_number value_string)) r1
                      else r1);
                r3 = (if field_key_lower \<in> set PASSPORT_RELATED_FIELDS \<and> matches passport_pattern value_string
                      then dict_set field_key (JStr (obfuscate_passport_number value_string)) r2
                      else r2);
                r4 = (if field_key_lower \<in> set UPI_RELATED_FIELDS \<and> matches upi_pattern value_string
                      then dict_set field_key (JStr (obfuscate_upi_identifier value_string)) r3
                      else r3)
            in r4)"

definition unconditional_pass :: "record_data \<Rightarrow> record_data" where
  \<comment> \<open>the loop over \<^verbatim>\<open>list(redacted_record.keys())\<close>, started on a copy of the record\<close>
  "unconditional_pass record_data = fold redact_field (keys record_data) record_data"

definition redact_emails :: "record_data \<Rightarrow> record_data" where
  "redact_emails redacted_record =
     fold (\<lambda>field_name red.
             if present field_name red \<and> matches email_pattern (get_str red field_name)
             then dict_set field_name (JStr (obfuscate_email_address (get_str red field_name))) red
             else red)
          EMAIL_RELATED_FIELDS redacted_record"

fun redact_names :: "string list \<Rightarrow> record_data \<Rightarrow> error + record_data" where
  \<comment> \<open>the loop over the full-name fields\<close>
  "redact_names [] red = Inr red"
| "redact_names (field_name # rest) red =
     (if present field_name red \<and> appears_as_complete_name (get_str red field_name)
      then (case obfuscate_personal_name (get_str red field_name) of
              Inl e \<Rightarrow> Inl e
            | Inr masked \<Rightarrow> redact_names rest (dict_set field_name (JStr masked) red))
      else redact_names rest red)"

definition mask_initial :: "string \<Rightarrow> record_data \<Rightarrow> error + record_data" where
  \<comment> \<open>\<^verbatim>\<open>d[k] = d[k][0] + "X" * (len(str(d[k])) - 1)\<close>; run only where the key is present\<close>
  "mask_initial field_name red =
     (case dict_get red field_name of
        None \<Rightarrow> Inr red
      | Some v \<Rightarrow>
          (case subscript0 v of
             Inl e \<Rightarrow> Inl e
           | Inr initial \<Rightarrow>
               Inr (dict_set field_name
                      (JStr (initial @ replicate (length (str v) - 1) CHR ''X'')) red)))"

definition redact_given_and_surname :: "record_data \<Rightarrow> error + record_data" where
  "redact_given_and_surname red =
     (if has_key GIVEN_NAME_FIELD red \<and> has_key SURNAME_FIELD red \<and>
         present GIVEN_NAME_FIELD red \<and> present SURNAME_FIELD red
      then (case mask_initial GIVEN_NAME_FIELD red of
              Inl e \<Rightarrow> Inl e
            | Inr red' \<Rightarrow> mask_initial SURNAME_FIELD red')
      else Inr red)"

definition redact_with :: "(string \<Rightarrow> string) \<Rightarrow> string list \<Rightarrow> record_data \<Rightarrow> record_data" where
  \<comment> \<open>the shape of the address, IP and device loops: each present field is replaced by
      the masked text of its value\<close>
  "redact_with masker fields redacted_record =
     fold (\<lambda>field_name red.
             if present field_name red
             then dict_set field_name (JStr (masker (get_str red field_name))) red
             else red)
          fields redacted_record"

definition conditional_pass :: "record_data \<Rightarrow> error + record_data" where
  "conditional_pass redacted_record =
     (case redact_names FULL_NAME_FIELDS (redact_emails redacted_record) of
        Inl e \<Rightarrow> Inl e
      | Inr named \<Rightarrow>
          (case redact_given_and_surname named of
             Inl e \<Rightarrow> Inl e
           | Inr initialled \<Rightarrow>
               Inr (redact_with obfuscate_device_identifier HARDWARE_ID_FIELDS
                     (redact_with obfuscate_ip_address NETWORK_IP_FIELDS
                       (redact_with obfuscate_physical_address LOCATION_FIELDS initialled)))))"

definition apply_redaction_rules :: "record_data \<Rightarrow> bool \<Rightarrow> error + record_data" where
  "apply_redaction_rules record_data is_sensitive_data =
     (let redacted_record = unconditional_pass record_data
      in if is_sensitive_data \<and> 2 \<le> count_combinatorial_elements record_data
         then conditional_pass redacted_record
         else Inr redacted_record)"

section \<open>Classification of one parsed row\<close>

definition is_sensitive_record :: "record_data \<Rightarrow> bool" where
  \<comment> \<open>the verdict \<^verbatim>\<open>execute_processing\<close> computes for a parsed row\<close>
  "is_sensitive_record parsed_data =
     (contains_individual_pii parsed_data \<or> 2 \<le> count_combinatorial_elements parsed_data)"

definition process_record :: "record_data \<Rightarrow> error + (record_data \<times> bool)" where
  \<comment> \<open>what \<^verbatim>\<open>execute_processing\<close> writes for a parsed row: the redacted record and the
      flag\<close>
  "process_record parsed_data =
     (let verdict = is_sensitive_record parsed_data
      in case apply_redaction_rules parsed_data verdict of
           Inl e \<Rightarrow> Inl e
         | Inr redacted_data \<Rightarrow> Inr (redacted_data, verdict))"

section \<open>Vocabulary of the statements\<close>

text \<open>
  The definitions of this section are not functions of the source. They name what the
  statements below talk about: the value each pass leaves in a field
  (\<open>redact_value\<close>, \<open>conditional_value\<close>), when a pass selects a field
  (\<open>selected_unconditional\<close>, \<open>selected_conditional\<close>), the groups of field names
  (\<open>standalone_fields\<close>, \<open>quasi_fields\<close>, \<open>scorer_fields\<close>), the four standalone
  categories with their names, patterns and maskers, a postal code at a position
  (\<open>postal_at\<close>), and a record with its field names lowercased (\<open>lowered\<close>).
  \<open>dict_adjust k g d\<close> replaces the value \<open>v\<close> stored under \<open>k\<close> by \<open>g v\<close>, if
  \<open>k\<close> is present; every assignment of \<^verbatim>\<open>apply_redaction_rules\<close> has this shape.

  \<open>masked_form\<close> writes out the masking rule of each standalone category as a relation
  between a text and its masked text, in terms of positions and characters only:
  \<open>run_at P n s i\<close> says that the \<open>n\<close> characters of \<open>s\<close> from position \<open>i\<close> exist
  and all satisfy \<open>P\<close>, \<open>passport_at s i\<close> that a word-bounded passport token starts
  at \<open>i\<close>, and \<open>leftmost P i\<close> that \<open>i\<close> is the first position with \<open>P\<close>. It does
  not mention the masking functions of the source; the first theorem below compares the
  two.
\<close>

definition dict_adjust :: "string \<Rightarrow> (jvalue \<Rightarrow> jvalue) \<Rightarrow> record_data \<Rightarrow> record_data" where
  "dict_adjust k g d = (case dict_get d k of None \<Rightarrow> d | Some v \<Rightarrow> dict_set k (g v) d)"

definition redact_value :: "string \<Rightarrow> jvalue \<Rightarrow> jvalue" where
  "redact_value field_key field_value =
     (if field_value = JNull then field_value
      else
        let value_string = str field_value;
            field_key_lower = lower field_key;
            v1 = (if field_key_lower \<in> set PHONE_RELATED_FIELDS \<and> matches ten_digits value_string
                  then JStr (obfuscate_phone_number value_string) else field_value);
            v2 = (if field_key_lower \<in> set AADHAAR_RELATED_FIELDS \<and> matches twelve_digits value_string
                  then JStr (obfuscate_aadhaar_number value_string) else v1);
            v3 = (if field_key_lower \<in> set PASSPORT_RELATED_FIELDS \<and> matches passport_pattern value_string
                  then JStr (obfuscate_passport_number value_string) else v2);
            v4 = (if field_key_lower \<in> set UPI_RELATED_FIELDS \<and> matches upi_pattern value_string
                  then JStr (obfuscate_upi_identifier value_string) else v3)
        in v4)"

fun is_text :: "jvalue \<Rightarrow> bool" where
  "is_text (JStr s) = True"
| "is_text v = False"

definition email_value :: "jvalue \<Rightarrow> jvalue" where
  "email_value v = (if truthy v \<and> matches email_pattern (str v)
                    then JStr (obfuscate_email_address (str v)) else v)"

definition masked_value :: "(string \<Rightarrow> string) \<Rightarrow> jvalue \<Rightarrow> jvalue" where
  "masked_value masker v = (if truthy v then JStr (masker (str v)) else v)"

definition name_mask :: "string \<Rightarrow> string" where
  "name_mask s =
     join '' '' (map (\<lambda>token. take 1 token @ replicate (length token - 1) CHR ''X'')
                     (filter (\<lambda>token. token \<noteq> []) (split_ws [] s)))"

definition name_value :: "jvalue \<Rightarrow> jvalue" where
  "name_value v = (if truthy v \<and> appears_as_complete_name (str v) then JStr (name_mask (str v)) else v)"

definition initial_value :: "jvalue \<Rightarrow> jvalue" where
  "initial_value v = JStr (take 1 (str v) @ replicate (length (str v) - 1) CHR ''X'')"

definition name_pair_present :: "record_data \<Rightarrow> bool" where
  "name_pair_present d = (present GIVEN_NAME_FIELD d \<and> present SURNAME_FIELD d)"

definition name_pair_is_text :: "record_data \<Rightarrow> bool" where
  "name_pair_is_text d =
     (case (dict_get d GIVEN_NAME_FIELD, dict_get d SURNAME_FIELD) of
        (Some a, Some b) \<Rightarrow> is_text a \<and> is_text b
      | _ \<Rightarrow> False)"

definition step_value :: "string list \<Rightarrow> (jvalue \<Rightarrow> jvalue) \<Rightarrow> string \<Rightarrow> jvalue \<Rightarrow> jvalue" where
  "step_value fields g k v = (if k \<in> set fields then g v else v)"

definition conditional_value :: "bool \<Rightarrow> string \<Rightarrow> jvalue \<Rightarrow> jvalue" where
  "conditional_value pair k v =
     step_value HARDWARE_ID_FIELDS (masked_value obfuscate_device_identifier) k
       (step_value NETWORK_IP_FIELDS (masked_value obfuscate_ip_address) k
         (step_value LOCATION_FIELDS (masked_value obfuscate_physical_address) k
           (step_value (if pair then [GIVEN_NAME_FIELD, SURNAME_FIELD] else []) initial_value k
             (step_value FULL_NAME_FIELDS name_value k
               (step_value EMAIL_RELATED_FIELDS email_value k v)))))"

definition conditional_result :: "record_data \<Rightarrow> record_data" where
  "conditional_result red =
     (let named = fold (\<lambda>f. dict_adjust f name_value) FULL_NAME_FIELDS
                    (fold (\<lambda>f. dict_adjust f email_value) EMAIL_RELATED_FIELDS red);
          initialled = (if name_pair_present red
                        then dict_adjust SURNAME_FIELD initial_value
                               (dict_adjust GIVEN_NAME_FIELD initial_value named)
                        else named)
      in fold (\<lambda>f. dict_adjust f (masked_value obfuscate_device_identifier)) HARDWARE_ID_FIELDS
           (fold (\<lambda>f. dict_adjust f (masked_value obfuscate_ip_address)) NETWORK_IP_FIELDS
              (fold (\<lambda>f. dict_adjust f (masked_value obfuscate_physical_address)) LOCATION_FIELDS
                 initialled)))"

definition standalone_fields :: "string list" where
  "standalone_fields =
     PHONE_RELATED_FIELDS @ AADHAAR_RELATED_FIELDS @ PASSPORT_RELATED_FIELDS @ UPI_RELATED_FIELDS"

definition quasi_fields :: "string list" where
  "quasi_fields =
     EMAIL_RELATED_FIELDS @ FULL_NAME_FIELDS @ [GIVEN_NAME_FIELD, SURNAME_FIELD] @
     LOCATION_FIELDS @ NETWORK_IP_FIELDS @ HARDWARE_ID_FIELDS"

definition selected_unconditional :: "string \<Rightarrow> jvalue \<Rightarrow> bool" where
  "selected_unconditional k v =
     (v \<noteq> JNull \<and>
      (lower k \<in> set PHONE_RELATED_FIELDS \<and> matches ten_digits (str v) \<or>
       lower k \<in> set AADHAAR_RELATED_FIELDS \<and> matches twelve_digits (str v) \<or>
       lower k \<in> set PASSPORT_RELATED_FIELDS \<and> matches passport_pattern (str v) \<or>
       lower k \<in> set UPI_RELATED_FIELDS \<and> matches upi_pattern (str v)))"

definition selected_conditional :: "record_data \<Rightarrow> bool \<Rightarrow> string \<Rightarrow> jvalue \<Rightarrow> bool" where
  "selected_conditional r b k v =
     (b \<and> 2 \<le> count_combinatorial_elements r \<and>
      (k \<in> set EMAIL_RELATED_FIELDS \<and> truthy v \<and> matches email_pattern (str v) \<or>
       k \<in> set FULL_NAME_FIELDS \<and> truthy v \<and> appears_as_complete_name (str v) \<or>
       (k = GIVEN_NAME_FIELD \<or> k = SURNAME_FIELD) \<and> name_pair_present r \<or>
       k \<in> set LOCATION_FIELDS \<and> truthy v \<or>
       k \<in> set NETWORK_IP_FIELDS \<and> truthy v \<or>
       k \<in> set HARDWARE_ID_FIELDS \<and> truthy v))"

datatype category = PHONE | NATIONAL_ID | PASSPORT | PAYMENT_HANDLE

fun category_fields :: "category \<Rightarrow> string list" where
  "category_fields PHONE = PHONE_RELATED_FIELDS"
| "category_fields NATIONAL_ID = AADHAAR_RELATED_FIELDS"
| "category_fields PASSPORT = PASSPORT_RELATED_FIELDS"
| "category_fields PAYMENT_HANDLE = UPI_RELATED_FIELDS"

fun detector_pattern :: "category \<Rightarrow> atom list" where
  "detector_pattern PHONE = decimal_ten_pattern"
| "detector_pattern NATIONAL_ID = decimal_twelve_pattern"
| "detector_pattern PASSPORT = passport_pattern"
| "detector_pattern PAYMENT_HANDLE = upi_pattern"

fun redaction_pattern :: "category \<Rightarrow> atom list" where
  "redaction_pattern PHONE = ten_digits"
| "redaction_pattern NATIONAL_ID = twelve_digits"
| "redaction_pattern PASSPORT = passport_pattern"
| "redaction_pattern PAYMENT_HANDLE = upi_pattern"

fun category_mask :: "category \<Rightarrow> string \<Rightarrow> string" where
  "category_mask PHONE = obfuscate_phone_number"
| "category_mask NATIONAL_ID = obfuscate_aadhaar_number"
| "category_mask PASSPORT = obfuscate_passport_number"
| "category_mask PAYMENT_HANDLE = obfuscate_upi_identifier"

definition postal_at :: "string \<Rightarrow> nat \<Rightarrow> bool" where
  "postal_at s i =
     (word_boundary s i \<and> i + 6 \<le> length s \<and>
      list_all (\<lambda>j. is_digit (s ! (i + j))) [0..<6] \<and> word_boundary s (i + 6))"

definition scorer_fields :: "string list" where
  "scorer_fields = quasi_fields @ PHONE_RELATED_FIELDS @ [''city'', ''state'', ''pin_code'']"

definition lowered :: "record_data \<Rightarrow> record_data" where
  "lowered r = map (\<lambda>(k, v). (lower k, v)) r"

definition run_at :: "(char \<Rightarrow> bool) \<Rightarrow> nat \<Rightarrow> string \<Rightarrow> nat \<Rightarrow> bool" where
  "run_at P n s i = (i + n \<le> length s \<and> list_all P (take n (drop i s)))"

definition passport_at :: "string \<Rightarrow> nat \<Rightarrow> bool" where
  "passport_at s i =
     (word_boundary s i \<and> i < length s \<and> is_upper (s ! i) \<and> run_at is_digit 7 s (Suc i) \<and>
      word_boundary s (i + 8))"

definition leftmost :: "(nat \<Rightarrow> bool) \<Rightarrow> nat \<Rightarrow> bool" where
  "leftmost P i = (P i \<and> list_all (\<lambda>j. \<not> P j) [0..<i])"

fun masked_form :: "category \<Rightarrow> string \<Rightarrow> string \<Rightarrow> bool" where
  "masked_form PHONE s out =
     list_ex (\<lambda>i. let m = take 10 (drop i s); x = take 2 m @ ''XXXXXX'' @ drop 8 m
                  in leftmost (run_at is_digit 10 s) i \<and> length out = length s \<and>
                     take i out = take i s \<and> take 10 (drop i out) = x \<and> out = replace s m x)
             [0..<length s]"
| "masked_form NATIONAL_ID s out =
     list_ex (\<lambda>i. let m = take 12 (drop i s); x = take 4 m @ ''XXXX'' @ drop 8 m
                  in leftmost (run_at is_digit 12 s) i \<and> length out = length s \<and>
                     take i out = take i s \<and> take 12 (drop i out) = x \<and> out = replace s m x)
             [0..<length s]"
| "masked_form PASSPORT s out =
     list_ex (\<lambda>i. let m = take 8 (drop i s); x = take 1 m @ ''XXXXXXX''
                  in leftmost (passport_at s) i \<and> length out = length s \<and>
                     take 8 (drop i out) = x \<and> out = replace s m x)
             [0..<length s]"
| "masked_form PAYMENT_HANDLE s out =
     (CHR ''@'' \<in> set s \<and>
      (let local_part = takeWhile (\<lambda>c. c \<noteq> CHR ''@'') s;
           domain_part = drop (Suc (length local_part)) s
       in out = (if length local_part \<le> 2 then ''XX'' else take 2 local_part @ ''XXX'')
                  @ ''@'' @ domain_part))"

section \<open>Auxiliary lemmas\<close>

lemma dict_get_set: "dict_get (dict_set k v d) k' = (if k' = k then Some v else dict_get d k')"
  by (induction d) (auto simp: dict_get_def)

lemma keys_set: "dict_get d k \<noteq> None \<Longrightarrow> keys (dict_set k v d) = keys d"
  by (induction d) (auto simp: dict_get_def keys_def)

lemma set_same: "dict_get d k = Some v \<Longrightarrow> dict_set k v d = d"
  by (induction d) (auto simp: dict_get_def)

lemma set_set: "dict_set k a (dict_set k b d) = dict_set k a d"
  by (induction d) auto

lemma dict_get_adjust:
  "dict_get (dict_adjust k g d) k' = (if k' = k then map_option g (dict_get d k) else dict_get d k')"
  by (auto simp: dict_adjust_def dict_get_set split: option.splits)

lemma keys_adjust: "keys (dict_adjust k g d) = keys d"
  by (auto simp: dict_adjust_def keys_set split: option.splits)

lemma adjust_id: "(\<And>v. dict_get d k = Some v \<Longrightarrow> g v = v) \<Longrightarrow> dict_adjust k g d = d"
  by (auto simp: dict_adjust_def set_same split: option.splits)

lemma keys_fold_adjust: "keys (fold (\<lambda>f. dict_adjust f (g f)) fs d) = keys d"
  by (induction fs arbitrary: d) (auto simp: keys_adjust)

lemma dict_get_fold_adjust:
  "distinct fs \<Longrightarrow>
   dict_get (fold (\<lambda>f. dict_adjust f (g f)) fs d) k =
     (if k \<in> set fs then map_option (g k) (dict_get d k) else dict_get d k)"
  by (induction fs arbitrary: d) (auto simp: dict_get_adjust)

lemma redact_field_adjust: "redact_field k d = dict_adjust k (redact_value k) d"
proof (cases "dict_get d k")
  case None
  then show ?thesis by (simp add: redact_field_def dict_adjust_def)
next
  case (Some v)
  then show ?thesis
    by (simp add: redact_field_def dict_adjust_def redact_value_def Let_def set_set set_same)
qed

lemma unconditional_pass_fold:
  "unconditional_pass r = fold (\<lambda>f. dict_adjust f (redact_value f)) (keys r) r"
  unfolding unconditional_pass_def using redact_field_adjust by presburger

lemma present_get: "present k d = (\<exists>v. dict_get d k = Some v \<and> truthy v)"
  by (auto simp: present_def split: option.splits)

lemma get_str_Some: "dict_get d k = Some v \<Longrightarrow> get_str d k = str v"
  by (simp add: get_str_def)

lemma email_step:
  "(if present f red \<and> matches email_pattern (get_str red f)
    then dict_set f (JStr (obfuscate_email_address (get_str red f))) red else red)
   = dict_adjust f email_value red"
  by (cases "dict_get red f")
     (auto simp: present_def get_str_def dict_adjust_def email_value_def set_same)

lemma redact_emails_fold:
  "redact_emails red = fold (\<lambda>f. dict_adjust f email_value) EMAIL_RELATED_FIELDS red"
  unfolding redact_emails_def email_step ..

lemma with_step:
  "(if present f red then dict_set f (JStr (masker (get_str red f))) red else red)
   = dict_adjust f (masked_value masker) red"
  by (cases "dict_get red f")
     (auto simp: present_def get_str_def dict_adjust_def masked_value_def set_same)

lemma redact_with_fold:
  "redact_with masker fields red = fold (\<lambda>f. dict_adjust f (masked_value masker)) fields red"
  unfolding redact_with_def with_step ..

lemma mask_tokens_total:
  "\<forall>t \<in> set ts. t \<noteq> [] \<Longrightarrow>
   mask_tokens ts = Inr (map (\<lambda>token. take 1 token @ replicate (length token - 1) CHR ''X'') ts)"
  by (induction ts) (auto split: list.splits)

lemma obfuscate_personal_name_total: "obfuscate_personal_name s = Inr (name_mask s)"
  by (simp add: obfuscate_personal_name_def name_mask_def mask_tokens_total)

lemma redact_names_fold:
  "redact_names fs red = Inr (fold (\<lambda>f. dict_adjust f name_value) fs red)"
proof (induction fs arbitrary: red)
  case Nil
  show ?case by simp
next
  case (Cons f fs)
  have step: "(if present f red \<and> appears_as_complete_name (get_str red f)
               then dict_set f (JStr (name_mask (get_str red f))) red else red)
              = dict_adjust f name_value red"
    by (cases "dict_get red f")
       (auto simp: present_def get_str_def dict_adjust_def name_value_def set_same)
  show ?case
  proof (cases "present f red \<and> appears_as_complete_name (get_str red f)")
    case True
    then have "dict_adjust f name_value red = dict_set f (JStr (name_mask (get_str red f))) red"
      using step by simp
    then show ?thesis
      using True Cons.IH by (simp add: obfuscate_personal_name_total)
  next
    case False
    then have "dict_adjust f name_value red = red"
      using step by auto
    then show ?thesis
      using False Cons.IH by auto
  qed
qed

lemma mask_initial_text:
  "dict_get red f = Some (JStr s) \<Longrightarrow> s \<noteq> [] \<Longrightarrow>
   mask_initial f red = Inr (dict_adjust f initial_value red)"
  by (cases s) (simp_all add: mask_initial_def dict_adjust_def initial_value_def)

lemma mask_initial_number:
  "dict_get red f = Some v \<Longrightarrow> \<not> is_text v \<Longrightarrow> mask_initial f red = Inl TypeError"
  by (cases v) (simp_all add: mask_initial_def)

lemma redact_given_and_surname_cases:
  "redact_given_and_surname red =
     (if name_pair_present red
      then (if name_pair_is_text red
            then Inr (dict_adjust SURNAME_FIELD initial_value
                        (dict_adjust GIVEN_NAME_FIELD initial_value red))
            else Inl TypeError)
      else Inr red)"
proof (cases "name_pair_present red")
  case False
  then show ?thesis
    by (auto simp: redact_given_and_surname_def name_pair_present_def)
next
  case True
  then obtain a b where a: "dict_get red GIVEN_NAME_FIELD = Some a" "truthy a"
    and b: "dict_get red SURNAME_FIELD = Some b" "truthy b"
    by (auto simp: name_pair_present_def present_get)
  have pres: "has_key GIVEN_NAME_FIELD red" "has_key SURNAME_FIELD red"
    "present GIVEN_NAME_FIELD red" "present SURNAME_FIELD red"
    using a b by (auto simp: has_key_def present_get)
  have ne: "SURNAME_FIELD \<noteq> GIVEN_NAME_FIELD"
    by (simp add: SURNAME_FIELD_def GIVEN_NAME_FIELD_def)
  show ?thesis
  proof (cases a)
    case (JStr s)
    then have s: "s \<noteq> []" using a by simp
    have first: "mask_initial GIVEN_NAME_FIELD red = Inr (dict_adjust GIVEN_NAME_FIELD initial_value red)"
      using mask_initial_text a JStr s by simp
    have b': "dict_get (dict_adjust GIVEN_NAME_FIELD initial_value red) SURNAME_FIELD = Some b"
      using b ne by (simp add: dict_get_adjust)
    show ?thesis
    proof (cases b)
      case (JStr t)
      then have "t \<noteq> []" using b by simp
      then have "mask_initial SURNAME_FIELD (dict_adjust GIVEN_NAME_FIELD initial_value red)
                 = Inr (dict_adjust SURNAME_FIELD initial_value
                          (dict_adjust GIVEN_NAME_FIELD initial_value red))"
        using mask_initial_text b' JStr by simp
      then show ?thesis
        using True first a b JStr \<open>a = JStr s\<close> pres
        by (simp add: redact_given_and_surname_def name_pair_is_text_def)
    next
      case (JInt n)
      then have "mask_initial SURNAME_FIELD (dict_adjust GIVEN_NAME_FIELD initial_value red) = Inl TypeError"
        using mask_initial_number b' by simp
      then show ?thesis
        using True first a b JInt pres
        by (simp add: redact_given_and_surname_def name_pair_is_text_def)
    next
      case (JFloat r)
      then have "mask_initial SURNAME_FIELD (dict_adjust GIVEN_NAME_FIELD initial_value red) = Inl TypeError"
        using mask_initial_number b' by simp
      then show ?thesis
        using True first a b JFloat pres
        by (simp add: redact_given_and_surname_def name_pair_is_text_def)
    next
      case JNull
      then show ?thesis using b by simp
    qed
  next
    case (JInt n)
    then have "mask_initial GIVEN_NAME_FIELD red = Inl TypeError"
      using mask_initial_number a by simp
    then show ?thesis
      using True a b JInt pres
      by (simp add: redact_given_and_surname_def name_pair_is_text_def)
  next
    case (JFloat r)
    then have "mask_initial GIVEN_NAME_FIELD red = Inl TypeError"
      using mask_initial_number a by simp
    then show ?thesis
      using True a b JFloat pres
      by (simp add: redact_given_and_surname_def name_pair_is_text_def)
  next
    case JNull
    then show ?thesis using a by simp
  qed
qed

lemma distinct_fields:
  "distinct EMAIL_RELATED_FIELDS" "distinct FULL_NAME_FIELDS" "distinct LOCATION_FIELDS"
  "distinct NETWORK_IP_FIELDS" "distinct HARDWARE_ID_FIELDS"
  by (simp_all add: EMAIL_RELATED_FIELDS_def FULL_NAME_FIELDS_def LOCATION_FIELDS_def
        NETWORK_IP_FIELDS_def HARDWARE_ID_FIELDS_def)

lemma surname_not_given: "SURNAME_FIELD \<noteq> GIVEN_NAME_FIELD"
  by (simp add: SURNAME_FIELD_def GIVEN_NAME_FIELD_def)

lemma pair_not_named:
  "GIVEN_NAME_FIELD \<notin> set EMAIL_RELATED_FIELDS" "GIVEN_NAME_FIELD \<notin> set FULL_NAME_FIELDS"
  "SURNAME_FIELD \<notin> set EMAIL_RELATED_FIELDS" "SURNAME_FIELD \<notin> set FULL_NAME_FIELDS"
  by (simp_all add: SURNAME_FIELD_def GIVEN_NAME_FIELD_def EMAIL_RELATED_FIELDS_def
        FULL_NAME_FIELDS_def)

lemma named_pair_get:
  "k = GIVEN_NAME_FIELD \<or> k = SURNAME_FIELD \<Longrightarrow>
   dict_get (fold (\<lambda>f. dict_adjust f name_value) FULL_NAME_FIELDS
              (fold (\<lambda>f. dict_adjust f email_value) EMAIL_RELATED_FIELDS red)) k = dict_get red k"
  using pair_not_named by (auto simp: dict_get_fold_adjust distinct_fields)

lemma conditional_pass_cases:
  "conditional_pass red =
     (if name_pair_present red \<and> \<not> name_pair_is_text red then Inl TypeError
      else Inr (conditional_result red))"
proof -
  define named where "named = fold (\<lambda>f. dict_adjust f name_value) FULL_NAME_FIELDS
                  (fold (\<lambda>f. dict_adjust f email_value) EMAIL_RELATED_FIELDS red)"
  have g: "dict_get named GIVEN_NAME_FIELD = dict_get red GIVEN_NAME_FIELD"
    and s: "dict_get named SURNAME_FIELD = dict_get red SURNAME_FIELD"
    unfolding named_def by (simp_all add: named_pair_get)
  have p: "name_pair_present named = name_pair_present red"
    by (simp add: name_pair_present_def present_get g s)
  have t: "name_pair_is_text named = name_pair_is_text red"
    by (simp add: name_pair_is_text_def g s)
  have n: "redact_names FULL_NAME_FIELDS (redact_emails red) = Inr named"
    by (simp add: redact_names_fold redact_emails_fold named_def)
  have r: "conditional_result red =
      fold (\<lambda>f. dict_adjust f (masked_value obfuscate_device_identifier)) HARDWARE_ID_FIELDS
           (fold (\<lambda>f. dict_adjust f (masked_value obfuscate_ip_address)) NETWORK_IP_FIELDS
              (fold (\<lambda>f. dict_adjust f (masked_value obfuscate_physical_address)) LOCATION_FIELDS
                 (if name_pair_present red
                        then dict_adjust SURNAME_FIELD initial_value
                               (dict_adjust GIVEN_NAME_FIELD initial_value named)
                        else named)))"
    by (simp add: conditional_result_def named_def Let_def)
  show ?thesis
    unfolding conditional_pass_def n r
    by (simp add: redact_given_and_surname_cases p t redact_with_fold)
qed

lemma keys_conditional_result: "keys (conditional_result red) = keys red"
  by (simp add: conditional_result_def Let_def keys_fold_adjust keys_adjust)

lemma dict_get_conditional_result:
  "dict_get (conditional_result red) k =
     map_option (conditional_value (name_pair_present red) k) (dict_get red k)"
proof (cases "dict_get red k")
  case None
  then show ?thesis
    by (auto simp: conditional_result_def Let_def dict_get_fold_adjust distinct_fields
          dict_get_adjust)
next
  case (Some v)
  then show ?thesis
    using surname_not_given
    by (auto simp: conditional_result_def conditional_value_def step_value_def Let_def
          dict_get_fold_adjust distinct_fields dict_get_adjust)
qed

lemma dict_get_None_keys: "dict_get d k = None \<longleftrightarrow> k \<notin> set (keys d)"
  by (simp add: dict_get_def keys_def map_of_eq_None_iff)

lemma fold_adjust_fixed:
  "dict_get d k = x \<Longrightarrow> (\<And>v. x = Some v \<Longrightarrow> g k v = v) \<Longrightarrow>
   dict_get (fold (\<lambda>f. dict_adjust f (g f)) fs d) k = x"
proof (induction fs arbitrary: d)
  case Nil
  then show ?case by simp
next
  case (Cons f fs)
  have "dict_get (dict_adjust f (g f) d) k = x"
    using Cons.prems by (cases x) (auto simp: dict_get_adjust)
  then show ?case using Cons.IH Cons.prems(2) by simp
qed

lemma redact_value_unselected: "\<not> selected_unconditional k v \<Longrightarrow> redact_value k v = v"
  by (auto simp: selected_unconditional_def redact_value_def Let_def)

lemma keys_unconditional_pass: "keys (unconditional_pass r) = keys r"
  by (simp add: unconditional_pass_fold keys_fold_adjust)

lemma unconditional_pass_frame:
  "dict_get r k = x \<Longrightarrow> (\<And>v. x = Some v \<Longrightarrow> \<not> selected_unconditional k v) \<Longrightarrow>
   dict_get (unconditional_pass r) k = x"
  unfolding unconditional_pass_fold
  by (rule fold_adjust_fixed) (auto simp: redact_value_unselected)

lemma dict_get_unconditional_pass:
  assumes "distinct (keys r)"
  shows "dict_get (unconditional_pass r) k = map_option (redact_value k) (dict_get r k)"
proof (cases "dict_get r k")
  case None
  then have "dict_get (unconditional_pass r) k = None"
    by (rule unconditional_pass_frame) simp
  then show ?thesis using None by simp
next
  case (Some v)
  then have "k \<in> set (keys r)" using dict_get_None_keys[of r k] by auto
  then show ?thesis
    using assms by (simp add: unconditional_pass_fold dict_get_fold_adjust)
qed

lemma quasi_lower: "list_all (\<lambda>k. lower k = k \<and> k \<notin> set standalone_fields) quasi_fields"
  by code_simp

lemma quasi_not_selected: "k \<in> set quasi_fields \<Longrightarrow> \<not> selected_unconditional k v"
  using quasi_lower
  by (auto simp: list_all_iff selected_unconditional_def standalone_fields_def)

lemma unconditional_pass_quasi:
  "k \<in> set quasi_fields \<Longrightarrow> dict_get (unconditional_pass r) k = dict_get r k"
  by (rule unconditional_pass_frame) (auto simp: quasi_not_selected)

lemma pair_in_quasi: "GIVEN_NAME_FIELD \<in> set quasi_fields" "SURNAME_FIELD \<in> set quasi_fields"
  by (simp_all add: quasi_fields_def)

lemma name_pair_unconditional:
  "name_pair_present (unconditional_pass r) = name_pair_present r"
  "name_pair_is_text (unconditional_pass r) = name_pair_is_text r"
  by (simp_all add: name_pair_present_def name_pair_is_text_def present_get
        unconditional_pass_quasi pair_in_quasi)

lemma apply_cases:
  "apply_redaction_rules r b =
     (if b \<and> 2 \<le> count_combinatorial_elements r
      then (if name_pair_present r \<and> \<not> name_pair_is_text r then Inl TypeError
            else Inr (conditional_result (unconditional_pass r)))
      else Inr (unconditional_pass r))"
  by (simp add: apply_redaction_rules_def Let_def conditional_pass_cases name_pair_unconditional)

lemma keys_apply: "apply_redaction_rules r b = Inr out \<Longrightarrow> keys out = keys r"
  by (auto simp: apply_cases keys_conditional_result keys_unconditional_pass split: if_splits)

lemma conditional_value_unselected:
  assumes "\<not> selected_conditional r True k v" "2 \<le> count_combinatorial_elements r"
  shows "conditional_value (name_pair_present r) k v = v"
proof -
  have e: "step_value EMAIL_RELATED_FIELDS email_value k v = v"
    using assms by (auto simp: selected_conditional_def step_value_def email_value_def)
  have n: "step_value FULL_NAME_FIELDS name_value k v = v"
    using assms by (auto simp: selected_conditional_def step_value_def name_value_def)
  have p: "step_value (if name_pair_present r then [GIVEN_NAME_FIELD, SURNAME_FIELD] else [])
             initial_value k v = v"
    using assms by (auto simp: selected_conditional_def step_value_def)
  have a: "step_value LOCATION_FIELDS (masked_value obfuscate_physical_address) k v = v"
    using assms by (auto simp: selected_conditional_def step_value_def masked_value_def)
  have i: "step_value NETWORK_IP_FIELDS (masked_value obfuscate_ip_address) k v = v"
    using assms by (auto simp: selected_conditional_def step_value_def masked_value_def)
  have h: "step_value HARDWARE_ID_FIELDS (masked_value obfuscate_device_identifier) k v = v"
    using assms by (auto simp: selected_conditional_def step_value_def masked_value_def)
  show ?thesis
    by (simp only: conditional_value_def e n p a i h)
qed

lemma apply_frame:
  assumes "apply_redaction_rules r b = Inr out" "dict_get r k = Some v"
    "\<not> selected_unconditional k v" "\<not> selected_conditional r b k v"
  shows "dict_get out k = Some v"
proof -
  have u: "dict_get (unconditional_pass r) k = Some v"
    using assms(2,3) by (auto intro: unconditional_pass_frame)
  show ?thesis
  proof (cases "b \<and> 2 \<le> count_combinatorial_elements r")
    case False
    then show ?thesis using assms(1) u by (auto simp: apply_cases)
  next
    case True
    then have out: "out = conditional_result (unconditional_pass r)"
      using assms(1) by (auto simp: apply_cases split: if_splits)
    have "conditional_value (name_pair_present r) k v = v"
      using conditional_value_unselected assms(4) True by auto
    then show ?thesis
      by (simp add: out dict_get_conditional_result u name_pair_unconditional)
  qed
qed

lemma apply_returns_iff:
  "(\<exists>out. apply_redaction_rules r b = Inr out) \<longleftrightarrow>
   \<not> (b \<and> 2 \<le> count_combinatorial_elements r \<and> name_pair_present r \<and> \<not> name_pair_is_text r)"
  by (auto simp: apply_cases)

lemma count_le_5: "count_combinatorial_elements r \<le> 5"
  by (simp add: count_combinatorial_elements_def)

lemma fold_fixed: "(\<And>x d. x \<in> set xs \<Longrightarrow> f x d = d) \<Longrightarrow> fold f xs d = d"
  by (induction xs) auto

lemma not_standalone_unselected:
  "lower k \<notin> set standalone_fields \<Longrightarrow> \<not> selected_unconditional k v"
  by (auto simp: selected_unconditional_def standalone_fields_def)

lemma redact_field_fixed: "lower k \<notin> set standalone_fields \<Longrightarrow> redact_field k d = d"
  unfolding redact_field_adjust
  by (rule adjust_id) (simp add: redact_value_unselected not_standalone_unselected)

lemma unconditional_pass_fixed:
  "\<forall>k \<in> set (keys r). lower k \<notin> set standalone_fields \<Longrightarrow> unconditional_pass r = r"
  unfolding unconditional_pass_def
  by (rule fold_fixed) (simp add: redact_field_fixed)

lemma any_field_none:
  "\<forall>k \<in> set (keys r). lower k \<notin> set fields \<Longrightarrow> \<not> any_field fields p r"
  by (auto simp: any_field_def list_ex_iff keys_def)

lemma detector_none:
  assumes "\<forall>k \<in> set (keys r). lower k \<notin> set standalone_fields"
  shows "\<not> contains_individual_pii r"
proof -
  have "\<forall>k \<in> set (keys r). lower k \<notin> set PHONE_RELATED_FIELDS"
    "\<forall>k \<in> set (keys r). lower k \<notin> set AADHAAR_RELATED_FIELDS"
    "\<forall>k \<in> set (keys r). lower k \<notin> set PASSPORT_RELATED_FIELDS"
    "\<forall>k \<in> set (keys r). lower k \<notin> set UPI_RELATED_FIELDS"
    using assms by (auto simp: standalone_fields_def)
  then show ?thesis
    by (simp add: contains_individual_pii_def any_field_none)
qed

lemma absent_not_present: "dict_get r k = None \<Longrightarrow> \<not> present k r"
  by (simp add: present_def)

lemma score_zero:
  assumes "\<forall>k \<in> set quasi_fields. dict_get r k = None"
  shows "count_combinatorial_elements r = 0"
proof -
  have np: "\<And>k. k \<in> set quasi_fields \<Longrightarrow> \<not> present k r"
    using assms by (simp add: absent_not_present)
  have n: "\<not> has_complete_name r"
    using np by (auto simp: has_complete_name_def list_ex_iff quasi_fields_def)
  have e: "\<not> has_email_address r"
    using np by (auto simp: has_email_address_def list_ex_iff quasi_fields_def)
  have a: "\<not> contains_complete_address r"
  proof -
    have "\<forall>f \<in> set LOCATION_FIELDS. \<not> present f r"
      using np by (auto simp: quasi_fields_def)
    then have "concat (map (\<lambda>field_name. if present field_name r
                 then get_str r field_name @ '' '' else []) LOCATION_FIELDS) = []"
      by simp
    then show ?thesis
      by (simp add: contains_complete_address_def Let_def)
  qed
  have d: "\<not> has_device_id r"
    using np by (auto simp: has_device_id_def list_ex_iff quasi_fields_def)
  have i: "\<not> has_ip_address r"
    using np by (auto simp: has_ip_address_def list_ex_iff quasi_fields_def)
  show ?thesis
    by (simp add: count_combinatorial_elements_def n e a d i)
qed

lemma unrecognised_quasi_absent:
  assumes "\<forall>k \<in> set (keys r). lower k \<notin> set (standalone_fields @ quasi_fields)"
  shows "\<forall>k \<in> set quasi_fields. dict_get r k = None"
proof
  fix k assume k: "k \<in> set quasi_fields"
  then have "lower k = k" using quasi_lower by (auto simp: list_all_iff)
  then have "k \<notin> set (keys r)" using assms k by auto
  then show "dict_get r k = None" by (simp add: dict_get_None_keys)
qed

lemma find_not_None: "List.find P xs \<noteq> None \<longleftrightarrow> (\<exists>x \<in> set xs. P x)"
  by (auto simp: find_None_iff)

lemma matches_iff: "matches p s \<longleftrightarrow> (\<exists>i \<le> length s. match_from p s i \<noteq> [])"
proof -
  have "matches p s \<longleftrightarrow> List.find (\<lambda>i. match_from p s i \<noteq> []) [0..<Suc (length s)] \<noteq> None"
    by (simp add: matches_def re_search_def split: option.splits)
  also have "\<dots> \<longleftrightarrow> (\<exists>i \<in> set [0..<Suc (length s)]. match_from p s i \<noteq> [])"
    by (rule find_not_None)
  also have "\<dots> \<longleftrightarrow> (\<exists>i \<le> length s. match_from p s i \<noteq> [])"
    by (auto simp: less_Suc_eq_le simp del: upt_Suc)
  finally show ?thesis .
qed

lemma bounded_run_matches:
  "match_from [WordBoundary, Rep P m n, WordBoundary] s i \<noteq> [] \<Longrightarrow>
   match_from [Rep P m n] s i \<noteq> []"
  by (auto simp: Let_def split: if_splits)

lemma bounded_implies_bare:
  "matches [WordBoundary, Rep P m n, WordBoundary] s \<Longrightarrow> matches [Rep P m n] s"
  unfolding matches_iff using bounded_run_matches by blast

lemma detector_implies_redaction:
  "matches (detector_pattern c) s \<Longrightarrow> matches (redaction_pattern c) s"
  by (cases c)
     (simp_all add: decimal_ten_pattern_def ten_digits_def decimal_twelve_pattern_def
        twelve_digits_def bounded_implies_bare)

lemma none_never_matches: "\<not> matches (redaction_pattern c) ''None''"
proof (cases c)
  case PHONE
  have "\<not> matches ten_digits ''None''" by code_simp
  then show ?thesis using PHONE by simp
next
  case NATIONAL_ID
  have "\<not> matches twelve_digits ''None''" by code_simp
  then show ?thesis using NATIONAL_ID by simp
next
  case PASSPORT
  have "\<not> matches passport_pattern ''None''" by code_simp
  then show ?thesis using PASSPORT by simp
next
  case PAYMENT_HANDLE
  have "\<not> matches upi_pattern ''None''" by code_simp
  then show ?thesis using PAYMENT_HANDLE by simp
qed

lemma standalone_distinct: "distinct standalone_fields"
  by code_simp

lemma standalone_disjoint:
  "set PHONE_RELATED_FIELDS \<inter> set AADHAAR_RELATED_FIELDS = {}"
  "set PHONE_RELATED_FIELDS \<inter> set PASSPORT_RELATED_FIELDS = {}"
  "set PHONE_RELATED_FIELDS \<inter> set UPI_RELATED_FIELDS = {}"
  "set AADHAAR_RELATED_FIELDS \<inter> set PASSPORT_RELATED_FIELDS = {}"
  "set AADHAAR_RELATED_FIELDS \<inter> set UPI_RELATED_FIELDS = {}"
  "set PASSPORT_RELATED_FIELDS \<inter> set UPI_RELATED_FIELDS = {}"
  using standalone_distinct by (auto simp: standalone_fields_def)

lemma redact_value_category:
  assumes "lower k \<in> set (category_fields c)" "matches (redaction_pattern c) (str v)"
  shows "redact_value k v = JStr (category_mask c (str v))"
proof -
  have nn: "v \<noteq> JNull"
    using assms(2) none_never_matches [of c] by auto
  show ?thesis
    using assms nn standalone_disjoint
    by (cases c) (auto simp: redact_value_def Let_def)
qed

lemma category_in_standalone: "lower k \<in> set (category_fields c) \<Longrightarrow> lower k \<in> set standalone_fields"
  by (cases c) (simp_all add: standalone_fields_def)

lemma standalone_not_quasi: "lower k \<in> set standalone_fields \<Longrightarrow> k \<notin> set quasi_fields"
  using quasi_lower by (auto simp: list_all_iff)

lemma conditional_value_frame: "k \<notin> set quasi_fields \<Longrightarrow> conditional_value p k v = v"
  by (simp add: conditional_value_def step_value_def quasi_fields_def)

lemma split_first_at:
  assumes "sep \<notin> set before"
  shows "split_first sep (before @ sep # rest) = (before, rest)"
proof -
  have ne: "\<And>x. x \<in> set before \<Longrightarrow> x \<noteq> sep"
    using assms by auto
  have t: "takeWhile (\<lambda>c. c \<noteq> sep) (before @ sep # rest) = before"
    using ne by simp
  have d: "dropWhile (\<lambda>c. c \<noteq> sep) (before @ sep # rest) = sep # rest"
    using ne by simp
  show ?thesis
    by (simp add: split_first_def t d)
qed

lemma contains_split:
  assumes "c \<in> set s"
  shows "\<exists>before rest. s = before @ c # rest \<and> c \<notin> set before"
  using split_list_first [OF assms] by blast

lemma upi_without_at: "CHR ''@'' \<notin> set s \<Longrightarrow> obfuscate_upi_identifier s = ''[REDACTED_PII]''"
  by (simp add: obfuscate_upi_identifier_def REDACTED_def)

lemma email_without_at: "CHR ''@'' \<notin> set s \<Longrightarrow> obfuscate_email_address s = s"
  by (simp add: obfuscate_email_address_def)

lemma upi_with_at:
  assumes "CHR ''@'' \<notin> set l"
  shows "obfuscate_upi_identifier (l @ CHR ''@'' # d) = mask_local l @ CHR ''@'' # d"
proof -
  have "split_first CHR ''@'' (l @ CHR ''@'' # d) = (l, d)"
    using assms by (rule split_first_at)
  then show ?thesis
    by (simp add: obfuscate_upi_identifier_def)
qed

lemma email_with_at:
  assumes "CHR ''@'' \<notin> set l"
  shows "obfuscate_email_address (l @ CHR ''@'' # d) = mask_local l @ CHR ''@'' # d"
proof -
  have "split_first CHR ''@'' (l @ CHR ''@'' # d) = (l, d)"
    using assms by (rule split_first_at)
  then show ?thesis
    by (simp add: obfuscate_email_address_def)
qed

lemma run_at_least:
  "n \<le> length (takeWhile P xs) \<longleftrightarrow> n \<le> length xs \<and> (\<forall>j<n. P (xs ! j))"
proof
  assume a: "n \<le> length (takeWhile P xs)"
  have "n \<le> length xs"
    using a length_takeWhile_le [of P xs] by (rule order_trans)
  moreover have "P (xs ! j)" if "j < n" for j
  proof -
    have j: "j < length (takeWhile P xs)" using that a by simp
    then have "takeWhile P xs ! j \<in> set (takeWhile P xs)" by simp
    then have "P (takeWhile P xs ! j)" by (rule set_takeWhileD [THEN conjunct2])
    then show ?thesis using takeWhile_nth [OF j] by simp
  qed
  ultimately show "n \<le> length xs \<and> (\<forall>j<n. P (xs ! j))" by blast
next
  assume b: "n \<le> length xs \<and> (\<forall>j<n. P (xs ! j))"
  show "n \<le> length (takeWhile P xs)"
  proof (rule ccontr)
    assume "\<not> n \<le> length (takeWhile P xs)"
    then have l: "length (takeWhile P xs) < n" by simp
    then have "length (takeWhile P xs) < length xs" using b by simp
    then have "\<not> P (xs ! length (takeWhile P xs))" by (rule nth_length_takeWhile)
    then show False using b l by blast
  qed
qed

lemma run_from:
  "n \<le> length (takeWhile P (drop i s)) \<longleftrightarrow>
     n \<le> length s - i \<and> (\<forall>j<n. P (drop i s ! j))"
  by (simp add: run_at_least)

lemma six_digits_step:
  "step (Rep is_digit 6 (Some 6)) s i =
     (if i + 6 \<le> length s \<and> list_all (\<lambda>j. is_digit (s ! (i + j))) [0..<6] then [i + 6] else [])"
proof -
  have r: "6 \<le> length (takeWhile is_digit (drop i s)) \<longleftrightarrow>
             i + 6 \<le> length s \<and> (\<forall>j<6. is_digit (s ! (i + j)))"
  proof -
    have "6 \<le> length (takeWhile is_digit (drop i s)) \<longleftrightarrow>
            6 \<le> length s - i \<and> (\<forall>j<6. is_digit (drop i s ! j))"
      by (rule run_from)
    also have "\<dots> \<longleftrightarrow> i + 6 \<le> length s \<and> (\<forall>j<6. is_digit (s ! (i + j)))"
      by auto
    finally show ?thesis .
  qed
  have l: "list_all (\<lambda>j. is_digit (s ! (i + j))) [0..<6] \<longleftrightarrow> (\<forall>j<6. is_digit (s ! (i + j)))"
    unfolding list_all_iff by (auto simp del: upt_Suc)
  show ?thesis
  proof (cases "6 \<le> length (takeWhile is_digit (drop i s))")
    case True
    then have "min 6 (length (takeWhile is_digit (drop i s))) = 6" by simp
    then have st: "step (Rep is_digit 6 (Some 6)) s i = [i + 6]"
      by (simp add: Let_def)
    show ?thesis unfolding st using True r l by simp
  next
    case False
    then have "min 6 (length (takeWhile is_digit (drop i s))) < 6" by simp
    then have st: "step (Rep is_digit 6 (Some 6)) s i = []"
      by (simp add: Let_def)
    show ?thesis unfolding st using False r l by simp
  qed
qed

lemma postal_match: "match_from postal_code_pattern s i = (if postal_at s i then [i + 6] else [])"
  unfolding postal_code_pattern_def postal_at_def match_from.simps six_digits_step
  by (simp add: add.commute)

lemma search_first:
  assumes "match_from p s i \<noteq> []" "i \<le> length s" "\<forall>j<i. match_from p s j = []"
  shows "re_search p s = Some (i, hd (match_from p s i))"
proof -
  have "List.find (\<lambda>i. match_from p s i \<noteq> []) [0..<Suc (length s)] = Some i"
    unfolding find_Some_iff
  proof (intro exI [of _ i] conjI)
    show "i < length [0..<Suc (length s)]" using assms(2) by simp
    show "match_from p s ([0..<Suc (length s)] ! i) \<noteq> []"
      using assms(1,2) by (simp del: upt_Suc)
    show "i = [0..<Suc (length s)] ! i"
      using assms(2) by (simp del: upt_Suc)
    show "\<forall>j<i. \<not> match_from p s ([0..<Suc (length s)] ! j) \<noteq> []"
      using assms(2,3) by (simp del: upt_Suc)
  qed
  then show ?thesis by (simp add: re_search_def)
qed

lemma search_none: "\<forall>i. match_from p s i = [] \<Longrightarrow> re_search p s = None"
  using matches_iff [of p s] by (cases "re_search p s") (auto simp: matches_def)

lemma address_with_postal:
  assumes "postal_at s i" "\<forall>j<i. \<not> postal_at s j"
  shows "obfuscate_physical_address s = take 3 s @ ''XXX'' @ ''...'' @ '', '' @ take 6 (drop i s)"
proof -
  have len: "i + 6 \<le> length s" using assms(1) by (simp add: postal_at_def)
  have "re_search postal_code_pattern s = Some (i, hd (match_from postal_code_pattern s i))"
    using assms len by (intro search_first) (simp_all add: postal_match)
  then have r: "re_search postal_code_pattern s = Some (i, i + 6)"
    using assms(1) by (simp add: postal_match)
  have g: "group0 s (i, i + 6) = take 6 (drop i s)"
    by (simp add: group0_def)
  have ne: "take 6 (drop i s) \<noteq> []"
    using len by auto
  show ?thesis
    using len ne by (simp add: obfuscate_physical_address_def r g Let_def)
qed

lemma address_without_postal:
  assumes "\<forall>i. \<not> postal_at s i"
  shows "obfuscate_physical_address s = (if 3 \<le> length s then take 3 s @ ''XXX'' else ''XXX'') @ ''...''"
proof -
  have "re_search postal_code_pattern s = None"
    using assms by (intro search_none) (simp add: postal_match)
  then show ?thesis
    by (simp add: obfuscate_physical_address_def Let_def)
qed

lemma short_no_postal: "length s < 6 \<Longrightarrow> \<not> postal_at s i"
  by (simp add: postal_at_def)

lemma no_postal_by_scan:
  "list_all (\<lambda>i. \<not> postal_at s i) [0..<length s] \<Longrightarrow> \<forall>i. \<not> postal_at s i"
proof
  fix i
  assume a: "list_all (\<lambda>i. \<not> postal_at s i) [0..<length s]"
  show "\<not> postal_at s i"
  proof (cases "i < length s")
    case True
    then show ?thesis using a by (simp add: list_all_iff)
  next
    case False
    then show ?thesis by (simp add: postal_at_def)
  qed
qed

lemma none_before_by_scan:
  "list_all (\<lambda>j. \<not> postal_at s j) [0..<i] \<Longrightarrow> \<forall>j<i. \<not> postal_at s j"
  by (simp add: list_all_iff)

lemma any_field_lowered:
  "any_field fields p r = list_ex (\<lambda>(l, v). l \<in> set fields \<and> matches p (str v)) (lowered r)"
  by (induction r) (auto simp: any_field_def lowered_def)

lemma detector_lowered: "lowered r = lowered r' \<Longrightarrow> contains_individual_pii r = contains_individual_pii r'"
  by (simp add: contains_individual_pii_def any_field_lowered)

lemma scorer_reads_exact_keys:
  assumes "\<forall>k \<in> set scorer_fields. dict_get r k = dict_get r' k"
  shows "count_combinatorial_elements r = count_combinatorial_elements r'"
proof -
  have agree_parts:
    "\<And>k. dict_get r k = dict_get r' k \<Longrightarrow> present k r = present k r'"
    "\<And>k. dict_get r k = dict_get r' k \<Longrightarrow> has_key k r = has_key k r'"
    "\<And>k. dict_get r k = dict_get r' k \<Longrightarrow> get_str r k = get_str r' k"
    by (simp_all add: present_def has_key_def get_str_def)
  have q: "\<And>k. k \<in> set quasi_fields \<Longrightarrow> dict_get r k = dict_get r' k"
    and p: "\<And>k. k \<in> set PHONE_RELATED_FIELDS \<Longrightarrow> dict_get r k = dict_get r' k"
    and c: "dict_get r ''city'' = dict_get r' ''city''"
           "dict_get r ''state'' = dict_get r' ''state''"
           "dict_get r ''pin_code'' = dict_get r' ''pin_code''"
    using assms by (simp_all add: scorer_fields_def)
  have fn: "\<And>k. k \<in> set FULL_NAME_FIELDS \<Longrightarrow> dict_get r k = dict_get r' k"
    and em: "\<And>k. k \<in> set EMAIL_RELATED_FIELDS \<Longrightarrow> dict_get r k = dict_get r' k"
    and lo: "\<And>k. k \<in> set LOCATION_FIELDS \<Longrightarrow> dict_get r k = dict_get r' k"
    and ip: "\<And>k. k \<in> set NETWORK_IP_FIELDS \<Longrightarrow> dict_get r k = dict_get r' k"
    and hw: "\<And>k. k \<in> set HARDWARE_ID_FIELDS \<Longrightarrow> dict_get r k = dict_get r' k"
    and gi: "dict_get r GIVEN_NAME_FIELD = dict_get r' GIVEN_NAME_FIELD"
    and su: "dict_get r SURNAME_FIELD = dict_get r' SURNAME_FIELD"
    using q by (simp_all add: quasi_fields_def)
  have find_eq: "List.find (\<lambda>f. has_key f r) FULL_NAME_FIELDS
                 = List.find (\<lambda>f. has_key f r') FULL_NAME_FIELDS"
    by (rule find_cong) (simp_all add: agree_parts fn)
  have name: "has_complete_name r = has_complete_name r'"
  proof -
    have a: "list_ex (\<lambda>f. present f r) FULL_NAME_FIELDS = list_ex (\<lambda>f. present f r') FULL_NAME_FIELDS"
      unfolding list_ex_iff using fn by (auto simp: agree_parts)
    have b: "(case List.find (\<lambda>f. has_key f r) FULL_NAME_FIELDS of None \<Rightarrow> False
               | Some f \<Rightarrow> appears_as_complete_name (get_str r f))
           = (case List.find (\<lambda>f. has_key f r') FULL_NAME_FIELDS of None \<Rightarrow> False
               | Some f \<Rightarrow> appears_as_complete_name (get_str r' f))"
    proof (cases "List.find (\<lambda>f. has_key f r') FULL_NAME_FIELDS")
      case None
      then show ?thesis using find_eq by simp
    next
      case (Some f)
      then have "f \<in> set FULL_NAME_FIELDS"
        by (auto simp: find_Some_iff)
      then have "get_str r f = get_str r' f"
        using fn by (simp add: agree_parts)
      then show ?thesis using Some find_eq by simp
    qed
    show ?thesis
      unfolding has_complete_name_def a b
      by (simp add: agree_parts(1,2) [OF gi] agree_parts(1,2) [OF su])
  qed
  have email: "has_email_address r = has_email_address r'"
    unfolding has_email_address_def list_ex_iff using em by (auto simp: agree_parts)
  have address: "contains_complete_address r = contains_complete_address r'"
  proof -
    have m: "map (\<lambda>f. if present f r then get_str r f @ '' '' else []) LOCATION_FIELDS
          = map (\<lambda>f. if present f r' then get_str r' f @ '' '' else []) LOCATION_FIELDS"
      using lo by (intro map_cong) (simp_all add: agree_parts)
    have ci: "get_str r ''city'' = get_str r' ''city''"
      using c(1) by (rule agree_parts(3))
    have st: "get_str r ''state'' = get_str r' ''state''"
      using c(2) by (rule agree_parts(3))
    have pc: "get_str r ''pin_code'' = get_str r' ''pin_code''"
      using c(3) by (rule agree_parts(3))
    show ?thesis
      unfolding contains_complete_address_def m ci st pc ..
  qed
  have device: "has_device_id r = has_device_id r'"
    unfolding has_device_id_def list_ex_iff using hw by (auto simp: agree_parts)
  have ipa: "has_ip_address r = has_ip_address r'"
    unfolding has_ip_address_def list_ex_iff using ip by (auto simp: agree_parts)
  have ctx: "has_user_context r = has_user_context r'"
  proof -
    have "list_ex (\<lambda>f. has_key f r) PHONE_RELATED_FIELDS = list_ex (\<lambda>f. has_key f r') PHONE_RELATED_FIELDS"
      unfolding list_ex_iff using p by (auto simp: agree_parts)
    then show ?thesis
      by (simp add: has_user_context_def name email)
  qed
  show ?thesis
    by (simp add: count_combinatorial_elements_def name email address device ipa ctx)
qed

lemma replace_from_length:
  "length new = length old \<Longrightarrow> length (replace_from old new s) = length s"
proof (induction old new s rule: replace_from.induct)
  case (1 old new)
  then show ?case by simp
next
  case (2 old new c cs)
  show ?case
  proof (cases "old \<noteq> [] \<and> take (length old) (c # cs) = old")
    case True
    have "length (take (length old) (c # cs)) = length old"
      using True by simp
    then have le: "length old \<le> Suc (length cs)"
      by simp
    have pos: "0 < length old" using True by simp
    have "length (replace_from old new (drop (length old - 1) cs)) = length (drop (length old - 1) cs)"
      using True 2 by simp
    then have "length (replace_from old new (c # cs)) = length old + (length cs - (length old - 1))"
      using True 2(3) by simp
    then show ?thesis
      using le pos by simp
  next
    case False
    then have "length (replace_from old new cs) = length cs"
      using 2 by simp
    then show ?thesis using False by auto
  qed
qed

lemma replace_from_hit:
  assumes "old \<noteq> []" "take (length old) t = old"
  shows "replace_from old new t = new @ replace_from old new (drop (length old) t)"
proof (cases t)
  case Nil
  then show ?thesis using assms by simp
next
  case (Cons c cs)
  have "drop (length old) (c # cs) = drop (length old - 1) cs"
    using assms(1) by (cases old) simp_all
  then show ?thesis using assms Cons by simp
qed

lemma replace_from_before:
  "\<forall>j<i. take (length old) (drop j s) \<noteq> old \<Longrightarrow>
   take i (replace_from old new s) = take i s \<and>
   drop i (replace_from old new s) = replace_from old new (drop i s)"
proof (induction i arbitrary: s)
  case 0
  show ?case by simp
next
  case (Suc i)
  show ?case
  proof (cases s)
    case Nil
    then show ?thesis by simp
  next
    case (Cons c cs)
    have "take (length old) (drop 0 s) \<noteq> old"
      using Suc.prems by blast
    then have miss: "take (length old) (c # cs) \<noteq> old"
      using Cons by simp
    have "\<forall>j<i. take (length old) (drop j cs) \<noteq> old"
    proof (intro allI impI)
      fix j assume "j < i"
      then have "take (length old) (drop (Suc j) s) \<noteq> old"
        using Suc.prems by simp
      then show "take (length old) (drop j cs) \<noteq> old"
        using Cons by simp
    qed
    then have "take i (replace_from old new cs) = take i cs \<and>
               drop i (replace_from old new cs) = replace_from old new (drop i cs)"
      by (rule Suc.IH)
    then show ?thesis
      using Cons miss by simp
  qed
qed

lemma replace_from_leftmost:
  assumes "old \<noteq> []" "take (length old) (drop i s) = old"
    "\<forall>j<i. take (length old) (drop j s) \<noteq> old"
  shows "replace_from old new s
           = take i s @ new @ replace_from old new (drop (i + length old) s)"
proof -
  have b: "take i (replace_from old new s) = take i s"
    and d: "drop i (replace_from old new s) = replace_from old new (drop i s)"
    using replace_from_before [OF assms(3)] by simp_all
  have "replace_from old new (drop i s)
          = new @ replace_from old new (drop (length old) (drop i s))"
    using assms(1,2) by (rule replace_from_hit)
  then have e: "drop i (replace_from old new s)
          = new @ replace_from old new (drop (i + length old) s)"
    using d by (simp add: add.commute)
  have "replace_from old new s
          = take i (replace_from old new s) @ drop i (replace_from old new s)"
    by simp
  then show ?thesis
    unfolding b e .
qed

lemma replace_from_at:
  "old \<noteq> [] \<Longrightarrow> length new = length old \<Longrightarrow> take (length old) (drop i s) = old \<Longrightarrow>
   \<forall>j<i. i < j + length old \<longrightarrow> take (length old) (drop j s) \<noteq> old \<Longrightarrow>
   take (length old) (drop i (replace_from old new s)) = new"
proof (induction old new s arbitrary: i rule: replace_from.induct)
  case (1 old new)
  then show ?case by simp
next
  case (2 old new c cs)
  let ?n = "length old"
  have pos: "0 < ?n" using "2.prems"(1) by simp
  show ?case
  proof (cases "take ?n (c # cs) = old")
    case True
    note hit = True
    have r: "replace_from old new (c # cs) = new @ replace_from old new (drop (?n - 1) cs)"
      using hit "2.prems"(1) by simp
    show ?thesis
    proof (cases "i = 0")
      case True
      then show ?thesis using r "2.prems"(2) by simp
    next
      case False
      have "\<not> (i < 0 + ?n)"
        using "2.prems"(4) False hit by auto
      then have ge: "?n \<le> i" by simp
      have ar: "(i - ?n) + (?n - 1) = i - 1"
        using ge pos by arith
      have "drop i (c # cs) = drop (i - 1) cs"
        using False by (cases i) simp_all
      then have dr: "drop (i - ?n) (drop (?n - 1) cs) = drop i (c # cs)"
        using ar by (simp add: add.commute)
      have occ: "take ?n (drop (i - ?n) (drop (?n - 1) cs)) = old"
        using "2.prems"(3) dr by simp
      have free: "\<forall>j<i - ?n. i - ?n < j + ?n \<longrightarrow> take ?n (drop j (drop (?n - 1) cs)) \<noteq> old"
      proof (intro allI impI)
        fix j assume j: "j < i - ?n" "i - ?n < j + ?n"
        have "drop j (drop (?n - 1) cs) = drop (j + ?n) (c # cs)"
          using pos by (cases ?n) simp_all
        moreover have "take ?n (drop (j + ?n) (c # cs)) \<noteq> old"
          using "2.prems"(4) j ge by auto
        ultimately show "take ?n (drop j (drop (?n - 1) cs)) \<noteq> old" by simp
      qed
      have "take ?n (drop (i - ?n) (replace_from old new (drop (?n - 1) cs))) = new"
        using "2.IH"(1) [of "i - ?n"] hit "2.prems"(1,2) occ free by blast
      then show ?thesis
        using r ge "2.prems"(2) by simp
    qed
  next
    case False
    note miss = False
    then have r: "replace_from old new (c # cs) = c # replace_from old new cs"
      by simp
    have i: "0 < i" using miss "2.prems"(3) by (cases i) simp_all
    then obtain i' where i': "i = Suc i'" by (cases i) simp_all
    have occ: "take ?n (drop i' cs) = old"
      using "2.prems"(3) i' by simp
    have free: "\<forall>j<i'. i' < j + ?n \<longrightarrow> take ?n (drop j cs) \<noteq> old"
    proof (intro allI impI)
      fix j assume j: "j < i'" "i' < j + ?n"
      then have "take ?n (drop (Suc j) (c # cs)) \<noteq> old"
        using "2.prems"(4) i' by auto
      then show "take ?n (drop j cs) \<noteq> old" by simp
    qed
    have "take ?n (drop i' (replace_from old new cs)) = new"
      using "2.IH"(2) [of i'] miss "2.prems"(1,2) occ free by blast
    then show ?thesis
      using r i' by simp
  qed
qed

lemma leftmost_iff: "leftmost P i \<longleftrightarrow> P i \<and> (\<forall>j<i. \<not> P j)"
  by (auto simp: leftmost_def list_all_iff)

lemma all_take_iff:
  "n \<le> length xs \<Longrightarrow> list_all P (take n xs) \<longleftrightarrow> (\<forall>j<n. P (xs ! j))"
  by (simp add: list_all_length)

lemma fixed_run_step:
  assumes "0 < n"
  shows "step (Rep P n (Some n)) s i = (if run_at P n s i then [i + n] else [])"
proof -
  have r: "n \<le> length (takeWhile P (drop i s)) \<longleftrightarrow> run_at P n s i"
  proof -
    have "n \<le> length (takeWhile P (drop i s)) \<longleftrightarrow>
            n \<le> length (drop i s) \<and> (\<forall>j<n. P (drop i s ! j))"
      by (rule run_at_least)
    also have "\<dots> \<longleftrightarrow> n \<le> length (drop i s) \<and> list_all P (take n (drop i s))"
      using all_take_iff [of n "drop i s" P] by blast
    also have "\<dots> \<longleftrightarrow> run_at P n s i"
      using assms by (auto simp: run_at_def)
    finally show ?thesis .
  qed
  show ?thesis
  proof (cases "n \<le> length (takeWhile P (drop i s))")
    case True
    then have "min n (length (takeWhile P (drop i s))) = n" by simp
    then have st: "step (Rep P n (Some n)) s i = [i + n]"
      by (simp add: Let_def)
    show ?thesis unfolding st using True r by simp
  next
    case False
    then have "min n (length (takeWhile P (drop i s))) < n" by simp
    then have st: "step (Rep P n (Some n)) s i = []"
      by (simp add: Let_def)
    show ?thesis unfolding st using False r by simp
  qed
qed

lemma fixed_run_match:
  "0 < n \<Longrightarrow> match_from [Rep P n (Some n)] s i = (if run_at P n s i then [i + n] else [])"
  by (simp only: match_from.simps fixed_run_step) simp

lemma match_boundary:
  "match_from (WordBoundary # p) s i = (if word_boundary s i then match_from p s i else [])"
  by simp

lemma match_class:
  "match_from (Cls P # p) s i = (if i < length s \<and> P (s ! i) then match_from p s (Suc i) else [])"
  by auto

lemma match_literal:
  "match_from (Lit c # p) s i = (if i < length s \<and> s ! i = c then match_from p s (Suc i) else [])"
  by auto

lemma passport_match:
  "match_from passport_pattern s i = (if passport_at s i then [i + 8] else [])"
proof -
  have seven: "\<And>j. step (Rep is_digit 7 (Some 7)) s j
                 = (if run_at is_digit 7 s j then [j + 7] else [])"
    by (rule fixed_run_step) simp
  have tail: "match_from [Rep is_digit 7 (Some 7), WordBoundary] s j
                = (if run_at is_digit 7 s j \<and> word_boundary s (j + 7) then [j + 7] else [])" for j
    unfolding match_from.simps seven by simp
  have "match_from passport_pattern s i
          = (if word_boundary s i
             then (if i < length s \<and> is_upper (s ! i)
                   then match_from [Rep is_digit 7 (Some 7), WordBoundary] s (Suc i) else [])
             else [])"
    by (simp only: passport_pattern_def match_boundary match_class)
  then show ?thesis
    unfolding tail passport_at_def by (auto simp: add.commute)
qed

lemma leftmost_match:
  assumes "matches p s"
  obtains i where "i \<le> length s" "match_from p s i \<noteq> []" "\<forall>j<i. match_from p s j = []"
proof -
  obtain k where k: "k \<le> length s" "match_from p s k \<noteq> []"
    using assms matches_iff by blast
  define i where "i = (LEAST i. match_from p s i \<noteq> [])"
  have a: "match_from p s i \<noteq> []"
    unfolding i_def using k(2) by (rule LeastI)
  have "i \<le> k"
    unfolding i_def using k(2) by (rule Least_le)
  then have b: "i \<le> length s" using k(1) by simp
  have c: "\<forall>j<i. match_from p s j = []"
    unfolding i_def using not_less_Least by blast
  show ?thesis using that a b c by blast
qed

lemma fixed_run_masker:
  assumes n: "0 < n" and hit: "matches [Rep P n (Some n)] s"
    and f: "\<And>m. length m = n \<Longrightarrow> length (f m) = n"
    and out: "out = (case re_search [Rep P n (Some n)] s of
                       None \<Rightarrow> s
                     | Some mo \<Rightarrow> replace s (group0 s mo) (f (group0 s mo)))"
  shows "\<exists>i<length s. leftmost (run_at P n s) i \<and> length out = length s \<and>
           take i out = take i s \<and> take n (drop i out) = f (take n (drop i s)) \<and>
           out = replace s (take n (drop i s)) (f (take n (drop i s)))"
proof -
  obtain i where i: "i \<le> length s" "match_from [Rep P n (Some n)] s i \<noteq> []"
      "\<forall>j<i. match_from [Rep P n (Some n)] s j = []"
    using hit by (rule leftmost_match)
  have fm: "\<And>j. match_from [Rep P n (Some n)] s j = (if run_at P n s j then [j + n] else [])"
    using n by (rule fixed_run_match)
  have run: "run_at P n s i"
    using i(2) unfolding fm by (simp split: if_splits)
  have none: "\<forall>j<i. \<not> run_at P n s j"
    using i(3) unfolding fm by (auto split: if_splits)
  have len: "i + n \<le> length s"
    using run by (simp add: run_at_def)
  have lt: "i < length s"
    using len n by simp
  define m where "m = take n (drop i s)"
  have lm: "length m = n"
    using len by (simp add: m_def)
  have ne: "m \<noteq> []"
    using lm n by auto
  have "re_search [Rep P n (Some n)] s = Some (i, hd (match_from [Rep P n (Some n)] s i))"
    using i by (intro search_first)
  then have rs: "re_search [Rep P n (Some n)] s = Some (i, i + n)"
    using run unfolding fm by simp
  have g: "group0 s (i, i + n) = m"
    by (simp add: group0_def m_def)
  have o: "out = replace_from m (f m) s"
    using ne by (simp add: out rs g replace_def)
  have occ: "take (length m) (drop i s) = m"
    unfolding lm by (simp add: m_def)
  have before: "\<forall>j<i. take (length m) (drop j s) \<noteq> m"
  proof (intro allI impI notI)
    fix j assume j: "j < i" and e: "take (length m) (drop j s) = m"
    have "length (take n (drop j s)) = n"
      using e lm by simp
    then have "j + n \<le> length s"
      using n by (simp add: min_def split: if_splits)
    moreover have "list_all P (take n (drop j s))"
      using e lm run by (simp add: run_at_def m_def)
    ultimately have "run_at P n s j"
      by (simp add: run_at_def)
    then show False using none j by blast
  qed
  have shape: "out = take i s @ f m @ replace_from m (f m) (drop (i + length m) s)"
    unfolding o using ne occ before by (rule replace_from_leftmost)
  have lf: "length (f m) = n"
    using lm by (rule f)
  have a: "length out = length s"
    unfolding o using lf lm by (simp add: replace_from_length)
  have b: "take i out = take i s"
    using shape i(1) by simp
  have c: "take n (drop i out) = f m"
    using shape i(1) lf by simp
  have d: "out = replace s m (f m)"
    using o ne by (simp add: replace_def)
  have "leftmost (run_at P n s) i"
    using run none by (simp add: leftmost_iff)
  then show ?thesis
    using lt a b c d unfolding m_def by blast
qed

lemma list_ex_below: "list_ex Q [0..<n] \<longleftrightarrow> (\<exists>i<n. Q i)"
  by (auto simp: list_ex_iff)

lemma upper_not_digit: "is_upper c \<Longrightarrow> \<not> is_digit c"
  by (simp add: is_upper_def is_digit_def in_range_def)

lemma phone_masked_form:
  assumes "matches ten_digits s"
  shows "masked_form PHONE s (obfuscate_phone_number s)"
proof -
  let ?f = "\<lambda>m. take 2 m @ ''XXXXXX'' @ last_n 2 m"
  have f: "\<And>m. length m = 10 \<Longrightarrow> length (?f m) = 10"
    by (simp add: last_n_def)
  have out: "obfuscate_phone_number s =
               (case re_search [Rep is_digit 10 (Some 10)] s of
                  None \<Rightarrow> s
                | Some mo \<Rightarrow> replace s (group0 s mo) (?f (group0 s mo)))"
    by (simp add: obfuscate_phone_number_def ten_digits_def Let_def split: option.splits)
  have hit: "matches [Rep is_digit 10 (Some 10)] s"
    using assms by (simp add: ten_digits_def)
  obtain i where i: "i < length s" "leftmost (run_at is_digit 10 s) i"
      "length (obfuscate_phone_number s) = length s"
      "take i (obfuscate_phone_number s) = take i s"
      "take 10 (drop i (obfuscate_phone_number s)) = ?f (take 10 (drop i s))"
      "obfuscate_phone_number s = replace s (take 10 (drop i s)) (?f (take 10 (drop i s)))"
    using fixed_run_masker [of 10 is_digit s ?f, OF _ hit f out] by auto
  have "i + 10 \<le> length s"
    using i(2) by (simp add: leftmost_iff run_at_def)
  then have l: "last_n 2 (take 10 (drop i s)) = drop 8 (take 10 (drop i s))"
    by (simp add: last_n_def)
  show ?thesis
    unfolding masked_form.simps list_ex_below Let_def
    using i unfolding l by blast
qed

lemma aadhaar_masked_form:
  assumes "matches twelve_digits s"
  shows "masked_form NATIONAL_ID s (obfuscate_aadhaar_number s)"
proof -
  let ?f = "\<lambda>m. take 4 m @ ''XXXX'' @ last_n 4 m"
  have f: "\<And>m. length m = 12 \<Longrightarrow> length (?f m) = 12"
    by (simp add: last_n_def)
  have out: "obfuscate_aadhaar_number s =
               (case re_search [Rep is_digit 12 (Some 12)] s of
                  None \<Rightarrow> s
                | Some mo \<Rightarrow> replace s (group0 s mo) (?f (group0 s mo)))"
    by (simp add: obfuscate_aadhaar_number_def twelve_digits_def Let_def split: option.splits)
  have hit: "matches [Rep is_digit 12 (Some 12)] s"
    using assms by (simp add: twelve_digits_def)
  obtain i where i: "i < length s" "leftmost (run_at is_digit 12 s) i"
      "length (obfuscate_aadhaar_number s) = length s"
      "take i (obfuscate_aadhaar_number s) = take i s"
      "take 12 (drop i (obfuscate_aadhaar_number s)) = ?f (take 12 (drop i s))"
      "obfuscate_aadhaar_number s = replace s (take 12 (drop i s)) (?f (take 12 (drop i s)))"
    using fixed_run_masker [of 12 is_digit s ?f, OF _ hit f out] by auto
  have "i + 12 \<le> length s"
    using i(2) by (simp add: leftmost_iff run_at_def)
  then have l: "last_n 4 (take 12 (drop i s)) = drop 8 (take 12 (drop i s))"
    by (simp add: last_n_def)
  show ?thesis
    unfolding masked_form.simps list_ex_below Let_def
    using i unfolding l by blast
qed

lemma passport_masked_form:
  assumes "matches passport_pattern s"
  shows "masked_form PASSPORT s (obfuscate_passport_number s)"
proof -
  obtain i where i: "i \<le> length s" "match_from passport_pattern s i \<noteq> []"
      "\<forall>j<i. match_from passport_pattern s j = []"
    using assms by (rule leftmost_match)
  have here: "passport_at s i"
    using i(2) unfolding passport_match by (simp split: if_splits)
  have none: "\<forall>j<i. \<not> passport_at s j"
    using i(3) unfolding passport_match by (auto split: if_splits)
  have lt: "i < length s" and up: "is_upper (s ! i)" and run: "run_at is_digit 7 s (Suc i)"
    using here by (simp_all add: passport_at_def)
  have len: "i + 8 \<le> length s"
    using run by (simp add: run_at_def)
  have digits: "\<And>d. 1 \<le> d \<Longrightarrow> d < 8 \<Longrightarrow> is_digit (s ! (i + d))"
  proof -
    fix d :: nat assume d: "1 \<le> d" "d < 8"
    have "\<forall>j<7. is_digit (drop (Suc i) s ! j)"
      using run len all_take_iff [of 7 "drop (Suc i) s" is_digit] by (simp add: run_at_def)
    then have "is_digit (drop (Suc i) s ! (d - 1))"
      using d by simp
    moreover have "drop (Suc i) s ! (d - 1) = s ! (i + d)"
      using d len by simp
    ultimately show "is_digit (s ! (i + d))" by simp
  qed
  define m where "m = take 8 (drop i s)"
  define x where "x = take 1 m @ ''XXXXXXX''"
  have lm: "length m = 8"
    using len by (simp add: m_def)
  have ne: "m \<noteq> []"
    using lm by auto
  have lx: "length x = length m"
    using lm by (simp add: x_def)
  have "re_search passport_pattern s = Some (i, hd (match_from passport_pattern s i))"
    using i by (intro search_first)
  then have rs: "re_search passport_pattern s = Some (i, i + 8)"
    using here unfolding passport_match by simp
  have g: "group0 s (i, i + 8) = m"
    by (simp add: group0_def m_def)
  have o: "obfuscate_passport_number s = replace_from m x s"
    using ne by (simp add: obfuscate_passport_number_def rs g replace_def x_def Let_def)
  have occ: "take (length m) (drop i s) = m"
    unfolding lm by (simp add: m_def)
  have free: "\<forall>j<i. i < j + length m \<longrightarrow> take (length m) (drop j s) \<noteq> m"
  proof (intro allI impI notI)
    fix j assume j: "j < i" "i < j + length m" and e: "take (length m) (drop j s) = m"
    define d where "d = i - j"
    have d: "1 \<le> d" "d < 8" "j + d = i"
      using j lm by (simp_all add: d_def)
    have "length (take 8 (drop j s)) = 8"
      using e lm by simp
    then have jl: "j + 8 \<le> length s"
      by (simp add: min_def split: if_splits)
    have "take 8 (drop j s) ! d = s ! (j + d)"
      using d jl by simp
    moreover have "take 8 (drop i s) ! d = s ! (i + d)"
      using d len by simp
    ultimately have "s ! i = s ! (i + d)"
      using e lm d(3) by (simp add: m_def)
    then have "is_digit (s ! i)"
      using digits [OF d(1,2)] by simp
    then show False
      using up upper_not_digit by blast
  qed
  have a: "length (obfuscate_passport_number s) = length s"
    unfolding o using lx by (rule replace_from_length)
  have "take (length m) (drop i (replace_from m x s)) = x"
    using ne lx occ free by (rule replace_from_at)
  then have b: "take 8 (drop i (obfuscate_passport_number s)) = x"
    using o lm by simp
  have c: "obfuscate_passport_number s = replace s m x"
    using o ne by (simp add: replace_def)
  have l: "leftmost (passport_at s) i"
    using here none by (simp add: leftmost_iff)
  show ?thesis
    unfolding masked_form.simps list_ex_below Let_def
    using lt l a b c unfolding m_def x_def by blast
qed

lemma match_tail: "match_from (a # p) s i \<noteq> [] \<Longrightarrow> \<exists>j. match_from p s j \<noteq> []"
  by auto

lemma literal_in_text: "match_from (Lit c # p) s i \<noteq> [] \<Longrightarrow> c \<in> set s"
  unfolding match_literal by (auto split: if_splits)

lemma upi_has_at:
  assumes "matches upi_pattern s"
  shows "CHR ''@'' \<in> set s"
proof -
  obtain i where "match_from upi_pattern s i \<noteq> []"
    using assms matches_iff by blast
  then obtain j where "match_from [Rep upi_class 2 None, Lit CHR ''@'', Rep is_alpha 2 None,
                          WordBoundary] s j \<noteq> []"
    unfolding upi_pattern_def using match_tail by blast
  then obtain k where "match_from [Lit CHR ''@'', Rep is_alpha 2 None, WordBoundary] s k \<noteq> []"
    using match_tail by blast
  then show ?thesis
    by (rule literal_in_text)
qed

lemma upi_masked_form:
  assumes "matches upi_pattern s"
  shows "masked_form PAYMENT_HANDLE s (obfuscate_upi_identifier s)"
proof -
  have at: "CHR ''@'' \<in> set s"
    using assms by (rule upi_has_at)
  have "drop 1 (dropWhile (\<lambda>c. c \<noteq> CHR ''@'') s)
          = drop (Suc (length (takeWhile (\<lambda>c. c \<noteq> CHR ''@'') s))) s"
    by (simp add: dropWhile_eq_drop)
  then show ?thesis
    using at
    by (simp add: obfuscate_upi_identifier_def split_first_def mask_local_def Let_def)
qed

lemma masked_form_category:
  "matches (redaction_pattern c) s \<Longrightarrow> masked_form c s (category_mask c s)"
  by (cases c)
     (simp_all only: redaction_pattern.simps category_mask.simps phone_masked_form
        aadhaar_masked_form passport_masked_form upi_masked_form)

section \<open>Verified properties\<close>

text \<open>
  C10. The first loop of \<^verbatim>\<open>apply_redaction_rules\<close> looks for ten or twelve digits in a
  row anywhere in the value, while the standalone detector asks for a run with a word
  boundary on both sides. A phone field holding eleven digits (and a national-ID field
  holding the number 1234567890123) is therefore rewritten although the detector does not
  fire, the score is 0 and the row is written with the flag false.
\<close>

theorem modified_yet_verdict_false:
  "matches ten_digits ''12345678901'' \<and>
   \<not> matches decimal_ten_pattern ''12345678901'' \<and>
   \<not> contains_individual_pii [(''phone'', JStr ''12345678901'')] \<and>
   count_combinatorial_elements [(''phone'', JStr ''12345678901'')] = 0 \<and>
   process_record [(''phone'', JStr ''12345678901'')]
     = Inr ([(''phone'', JStr ''12XXXXXX901'')], False) \<and>
   process_record [(''Aadhaar'', JInt 1234567890123)]
     = Inr ([(''Aadhaar'', JStr ''1234XXXX90123'')], False)"
  by code_simp

text \<open>
  C3. \<^verbatim>\<open>apply_redaction_rules\<close> is not total on records of text, numbers and null. The
  given-name and surname step indexes the stored value itself
  (\<^verbatim>\<open>redacted_record[GIVEN_NAME_FIELD][0]\<close>) and converts it to text only for its length,
  so a numeric given name in a record that reaches the conditional pass raises TypeError.
  The record below is classified as PII by the program itself.
\<close>

theorem numeric_given_name_raises:
  "is_sensitive_record
       [(''first_name'', JInt 7), (''last_name'', JStr ''Verma''), (''email'', JStr ''a@b.co'')] \<and>
   apply_redaction_rules
       [(''first_name'', JInt 7), (''last_name'', JStr ''Verma''), (''email'', JStr ''a@b.co'')] True
     = Inl TypeError"
  by code_simp

text \<open>
  C2. The flag written for a parsed row is the disjunction of the two detectors: it is true
  exactly when the standalone detector fires or the combinatorial score is at least 2, and
  every row that is written carries that value.
\<close>

theorem verdict_is_disjunction:
  "(is_sensitive_record r \<longleftrightarrow>
      contains_individual_pii r \<or> 2 \<le> count_combinatorial_elements r) \<and>
   (\<forall>out flag. process_record r = Inr (out, flag) \<longrightarrow>
      (flag \<longleftrightarrow> contains_individual_pii r \<or> 2 \<le> count_combinatorial_elements r))"
  by (auto simp: is_sensitive_record_def process_record_def Let_def split: sum.splits)

theorem verdict_is_disjunction_witness:
  "process_record [(''name'', JStr ''Asha Verma''), (''email'', JStr ''asha@mail.com'')]
     = Inr ([(''name'', JStr ''AXXX VXXXX''), (''email'', JStr ''asXXX@mail.com'')], True) \<and>
   \<not> contains_individual_pii [(''name'', JStr ''Asha Verma''), (''email'', JStr ''asha@mail.com'')] \<and>
   2 \<le> count_combinatorial_elements
          [(''name'', JStr ''Asha Verma''), (''email'', JStr ''asha@mail.com'')]"
proof -
  have p: "process_record [(''name'', JStr ''Asha Verma''), (''email'', JStr ''asha@mail.com'')]
     = Inr ([(''name'', JStr ''AXXX VXXXX''), (''email'', JStr ''asXXX@mail.com'')], True)"
    by code_simp
  have d: "\<not> contains_individual_pii
              [(''name'', JStr ''Asha Verma''), (''email'', JStr ''asha@mail.com'')]"
    by code_simp
  show ?thesis
    using p d
      verdict_is_disjunction [of "[(''name'', JStr ''Asha Verma''), (''email'', JStr ''asha@mail.com'')]"]
    by blast
qed

text \<open>
  C6. The combinatorial score never exceeds 5 (it is a natural number, so it is at least
  0). For a record whose score is exactly 1 the conditional pass does not run, whatever
  flag is passed: \<^verbatim>\<open>apply_redaction_rules\<close> returns the result of the unconditional pass,
  with the same keys, and every quasi-identifier field (email, alt_email, username, name,
  first_name, last_name, address, ip, ip_address, device_id) holds what it held.
\<close>

theorem score_bounded_and_single_signal_untouched:
  "count_combinatorial_elements r \<le> 5 \<and>
   (count_combinatorial_elements r = 1 \<longrightarrow>
      (\<forall>b. \<exists>out. apply_redaction_rules r b = Inr out \<and> out = unconditional_pass r \<and>
                  keys out = keys r \<and>
                  (\<forall>k \<in> set quasi_fields. dict_get out k = dict_get r k)))"
  by (simp add: count_le_5 apply_cases keys_unconditional_pass unconditional_pass_quasi)

theorem score_bounded_and_single_signal_untouched_witness:
  "count_combinatorial_elements [(''name'', JStr ''Asha Verma'')] = 1 \<and>
   apply_redaction_rules [(''name'', JStr ''Asha Verma'')] True
     = Inr (unconditional_pass [(''name'', JStr ''Asha Verma'')]) \<and>
   dict_get (unconditional_pass [(''name'', JStr ''Asha Verma'')]) ''name''
     = dict_get [(''name'', JStr ''Asha Verma'')] ''name''"
proof -
  have c: "count_combinatorial_elements [(''name'', JStr ''Asha Verma'')] = 1"
    by code_simp
  have q: "''name'' \<in> set quasi_fields"
    by code_simp
  show ?thesis
    using c q score_bounded_and_single_signal_untouched [of "[(''name'', JStr ''Asha Verma'')]"]
    by metis
qed

text \<open>
  C7. A record none of whose field names is, lowercased, a name of the taxonomy (the
  phone, national-ID, passport, payment-handle, email, full-name, given-name, surname,
  address, IP or device-id names) is classified as not PII, with score 0, and
  \<^verbatim>\<open>apply_redaction_rules\<close> returns it unchanged for either flag.
\<close>

theorem unrecognised_record_is_identity:
  assumes "\<forall>k \<in> set (keys r). lower k \<notin> set (standalone_fields @ quasi_fields)"
  shows "\<not> is_sensitive_record r \<and> count_combinatorial_elements r = 0 \<and>
         (\<forall>b. apply_redaction_rules r b = Inr r) \<and> process_record r = Inr (r, False)"
proof -
  have s: "\<forall>k \<in> set (keys r). lower k \<notin> set standalone_fields"
    using assms by auto
  have z: "count_combinatorial_elements r = 0"
    using assms by (intro score_zero unrecognised_quasi_absent)
  have v: "\<not> is_sensitive_record r"
    using detector_none [OF s] z by (simp add: is_sensitive_record_def)
  have a: "\<forall>b. apply_redaction_rules r b = Inr r"
    using z unconditional_pass_fixed [OF s] by (simp add: apply_cases)
  show ?thesis
    using v z a by (simp add: process_record_def)
qed

theorem unrecognised_record_is_identity_witness:
  "process_record [(''order_id'', JInt 12), (''note'', JStr ''call 9876543210''), (''tag'', JNull)]
     = Inr ([(''order_id'', JInt 12), (''note'', JStr ''call 9876543210''), (''tag'', JNull)], False)"
proof -
  have h: "\<forall>k \<in> set (keys [(''order_id'', JInt 12), (''note'', JStr ''call 9876543210''),
                              (''tag'', JNull)]).
             lower k \<notin> set (standalone_fields @ quasi_fields)"
    by code_simp
  show ?thesis
    using unrecognised_record_is_identity [OF h] by simp
qed

text \<open>
  C9. Whenever \<^verbatim>\<open>apply_redaction_rules\<close> returns a record, that record has the keys of the
  input in the same order, and a field that neither pass selects holds its original value.
  The unconditional pass selects a non-null field whose lowercased name is in a standalone
  group and whose text the group's pattern finds a match in; the conditional pass, which
  runs when the flag is true and the score is at least 2, selects the non-empty email
  fields that hold an email, the non-empty full name with two alphabetic words, the given
  name and surname when both are non-empty, and the non-empty address, IP and device-id
  fields. A record is returned unless the conditional pass meets a non-empty given-name
  and surname pair that is not text.
\<close>

theorem redaction_preserves_shape_and_unselected:
  "(\<forall>out. apply_redaction_rules r b = Inr out \<longrightarrow>
      keys out = keys r \<and>
      (\<forall>k v. dict_get r k = Some v \<and> \<not> selected_unconditional k v \<and>
             \<not> selected_conditional r b k v \<longrightarrow> dict_get out k = Some v)) \<and>
   ((\<exists>out. apply_redaction_rules r b = Inr out) \<longleftrightarrow>
      \<not> (b \<and> 2 \<le> count_combinatorial_elements r \<and> name_pair_present r \<and>
         \<not> name_pair_is_text r))"
  using keys_apply apply_frame apply_returns_iff by blast

theorem redaction_preserves_shape_and_unselected_witness:
  "apply_redaction_rules
     [(''name'', JStr ''Asha Verma''), (''plan'', JInt 3), (''email'', JStr ''asha@mail.com'')] True
     = Inr [(''name'', JStr ''AXXX VXXXX''), (''plan'', JInt 3), (''email'', JStr ''asXXX@mail.com'')] \<and>
   keys [(''name'', JStr ''AXXX VXXXX''), (''plan'', JInt 3), (''email'', JStr ''asXXX@mail.com'')]
     = keys [(''name'', JStr ''Asha Verma''), (''plan'', JInt 3), (''email'', JStr ''asha@mail.com'')] \<and>
   dict_get [(''name'', JStr ''AXXX VXXXX''), (''plan'', JInt 3), (''email'', JStr ''asXXX@mail.com'')]
     ''plan'' = Some (JInt 3)"
proof -
  let ?r = "[(''name'', JStr ''Asha Verma''), (''plan'', JInt 3), (''email'', JStr ''asha@mail.com'')]"
  let ?out = "[(''name'', JStr ''AXXX VXXXX''), (''plan'', JInt 3), (''email'', JStr ''asXXX@mail.com'')]"
  have a: "apply_redaction_rules ?r True = Inr ?out"
    by code_simp
  have g: "dict_get ?r ''plan'' = Some (JInt 3)"
    by code_simp
  have u: "\<not> selected_unconditional ''plan'' (JInt 3)"
    by code_simp
  have c: "\<not> selected_conditional ?r True ''plan'' (JInt 3)"
    by code_simp
  show ?thesis
    using a g u c redaction_preserves_shape_and_unselected [of ?r True]
    by blast
qed

text \<open>
  C1. Take a record (a dict, so each key occurs once), a field of it and one of the four
  standalone categories such that the lowercased field name is one of the category's
  names and the text of the value matches the category's pattern, either the word-bounded
  pattern of the detector or the pattern the redaction loop itself tests. Then every record
  \<^verbatim>\<open>apply_redaction_rules\<close> returns, for either flag, holds the category's masked form of
  that text in the field, and the masked form is the following.
  \<^item> Phone: at the leftmost run of ten digits the first two and the last two digits stay
    and the six between them are \<^verbatim>\<open>X\<close>; the text before the run is unchanged, the
    length is unchanged, and the whole is the text with every occurrence of the run
    replaced in this way.
  \<^item> National ID: the same at the leftmost run of twelve digits, with the first four and
    the last four digits kept and the four between them \<^verbatim>\<open>X\<close>.
  \<^item> Passport: at the leftmost word-bounded token of a capital letter and seven digits the
    letter stays and the seven digits are \<^verbatim>\<open>X\<close>; the length is unchanged, and the
    whole is the text with every occurrence of the token replaced in this way.
  \<^item> Payment handle: the text holds an \<^verbatim>\<open>@\<close>; the part before the first \<^verbatim>\<open>@\<close> becomes
    \<^verbatim>\<open>XX\<close> if it has at most two characters and its first two characters followed by
    \<^verbatim>\<open>XXX\<close> otherwise, and the \<^verbatim>\<open>@\<close> and all after it stay.

  With the flag false a record is always returned; with the flag true one is returned
  unless the conditional pass meets a non-empty given-name and surname pair that is not
  text.
\<close>

theorem standalone_field_always_masked:
  assumes "distinct (keys r)" "dict_get r k = Some v" "lower k \<in> set (category_fields c)"
    "matches (detector_pattern c) (str v) \<or> matches (redaction_pattern c) (str v)"
  shows "(\<forall>b out. apply_redaction_rules r b = Inr out \<longrightarrow>
            dict_get out k = Some (JStr (category_mask c (str v)))) \<and>
         masked_form c (str v) (category_mask c (str v)) \<and>
         (\<forall>b. (\<exists>out. apply_redaction_rules r b = Inr out) \<longleftrightarrow>
            \<not> (b \<and> 2 \<le> count_combinatorial_elements r \<and> name_pair_present r \<and>
               \<not> name_pair_is_text r))"
proof -
  have m: "matches (redaction_pattern c) (str v)"
    using assms(4) detector_implies_redaction by blast
  have u: "dict_get (unconditional_pass r) k = Some (JStr (category_mask c (str v)))"
    using assms(1,2) redact_value_category [OF assms(3) m]
    by (simp add: dict_get_unconditional_pass)
  have q: "k \<notin> set quasi_fields"
    using assms(3) category_in_standalone standalone_not_quasi by blast
  have "dict_get out k = Some (JStr (category_mask c (str v)))"
    if "apply_redaction_rules r b = Inr out" for b out
    using that u conditional_value_frame [OF q]
    by (auto simp: apply_cases dict_get_conditional_result split: if_splits)
  then show ?thesis
    using apply_returns_iff masked_form_category [OF m] by blast
qed

theorem standalone_field_always_masked_witness:
  "apply_redaction_rules [(''Phone'', JInt 9876543210), (''name'', JStr ''Asha Verma'')] False
     = Inr [(''Phone'', JStr ''98XXXXXX10''), (''name'', JStr ''Asha Verma'')] \<and>
   dict_get [(''Phone'', JStr ''98XXXXXX10''), (''name'', JStr ''Asha Verma'')] ''Phone''
     = Some (JStr (category_mask PHONE (str (JInt 9876543210)))) \<and>
   masked_form PHONE ''9876543210'' ''98XXXXXX10'' \<and>
   apply_redaction_rules [(''passport'', JStr ''no. P1234567 (IN)'')] True
     = Inr [(''passport'', JStr ''no. PXXXXXXX (IN)'')] \<and>
   masked_form PASSPORT ''no. P1234567 (IN)'' ''no. PXXXXXXX (IN)''"
proof -
  let ?r = "[(''Phone'', JInt 9876543210), (''name'', JStr ''Asha Verma'')]"
  have d: "distinct (keys ?r)"
    by code_simp
  have g: "dict_get ?r ''Phone'' = Some (JInt 9876543210)"
    by code_simp
  have l: "lower ''Phone'' \<in> set (category_fields PHONE)"
    by code_simp
  have m: "matches (detector_pattern PHONE) (str (JInt 9876543210))"
    by code_simp
  have a: "apply_redaction_rules ?r False
             = Inr [(''Phone'', JStr ''98XXXXXX10''), (''name'', JStr ''Asha Verma'')]"
    by code_simp
  have s: "str (JInt 9876543210) = ''9876543210''"
    by code_simp
  have c: "category_mask PHONE ''9876543210'' = ''98XXXXXX10''"
    by code_simp
  have phone: "dict_get [(''Phone'', JStr ''98XXXXXX10''), (''name'', JStr ''Asha Verma'')] ''Phone''
                 = Some (JStr (category_mask PHONE (str (JInt 9876543210)))) \<and>
               masked_form PHONE (str (JInt 9876543210)) (category_mask PHONE (str (JInt 9876543210)))"
    using a standalone_field_always_masked [OF d g l disjI1 [OF m]] by blast
  have pd: "dict_get [(''Phone'', JStr ''98XXXXXX10''), (''name'', JStr ''Asha Verma'')] ''Phone''
              = Some (JStr (category_mask PHONE (str (JInt 9876543210))))"
    using phone by (rule conjunct1)
  have "masked_form PHONE (str (JInt 9876543210)) (category_mask PHONE (str (JInt 9876543210)))"
    using phone by (rule conjunct2)
  then have pm: "masked_form PHONE ''9876543210'' ''98XXXXXX10''"
    unfolding s c .
  let ?p = "[(''passport'', JStr ''no. P1234567 (IN)'')]"
  have d': "distinct (keys ?p)"
    by code_simp
  have g': "dict_get ?p ''passport'' = Some (JStr ''no. P1234567 (IN)'')"
    by code_simp
  have l': "lower ''passport'' \<in> set (category_fields PASSPORT)"
    by code_simp
  have m': "matches (detector_pattern PASSPORT) (str (JStr ''no. P1234567 (IN)''))"
    by code_simp
  have a': "apply_redaction_rules ?p True = Inr [(''passport'', JStr ''no. PXXXXXXX (IN)'')]"
    by code_simp
  have c': "category_mask PASSPORT ''no. P1234567 (IN)'' = ''no. PXXXXXXX (IN)''"
    by code_simp
  have s': "str (JStr ''no. P1234567 (IN)'') = ''no. P1234567 (IN)''"
    by simp
  have "masked_form PASSPORT (str (JStr ''no. P1234567 (IN)''))
          (category_mask PASSPORT (str (JStr ''no. P1234567 (IN)'')))"
    using standalone_field_always_masked [OF d' g' l' disjI1 [OF m']] by blast
  then have qm: "masked_form PASSPORT ''no. P1234567 (IN)'' ''no. PXXXXXXX (IN)''"
    unfolding s' c' .
  show ?thesis
    by (intro conjI a pd pm a' qm)
qed

text \<open>
  C8. On a text without \<^verbatim>\<open>@\<close> the payment-handle masker returns the sentinel
  \<^verbatim>\<open>[REDACTED_PII]\<close> and the email masker returns the text unchanged. A text with an
  \<^verbatim>\<open>@\<close> splits at its first \<^verbatim>\<open>@\<close> into a local part and a domain part; both maskers
  keep the domain part and replace the local part by \<^verbatim>\<open>XX\<close> when it has at most two
  characters and by its first two characters and \<^verbatim>\<open>XXX\<close> otherwise.
\<close>

theorem handle_and_email_masking:
  "(CHR ''@'' \<notin> set s \<longrightarrow>
      obfuscate_upi_identifier s = ''[REDACTED_PII]'' \<and> obfuscate_email_address s = s) \<and>
   (CHR ''@'' \<in> set s \<longrightarrow>
      (\<exists>local_part domain_part.
         s = local_part @ ''@'' @ domain_part \<and> CHR ''@'' \<notin> set local_part \<and>
         obfuscate_upi_identifier s =
           (if length local_part \<le> 2 then ''XX'' else take 2 local_part @ ''XXX'')
             @ ''@'' @ domain_part \<and>
         obfuscate_email_address s =
           (if length local_part \<le> 2 then ''XX'' else take 2 local_part @ ''XXX'')
             @ ''@'' @ domain_part))"
proof -
  have with_at: "\<exists>local_part domain_part.
         s = local_part @ ''@'' @ domain_part \<and> CHR ''@'' \<notin> set local_part \<and>
         obfuscate_upi_identifier s =
           (if length local_part \<le> 2 then ''XX'' else take 2 local_part @ ''XXX'')
             @ ''@'' @ domain_part \<and>
         obfuscate_email_address s =
           (if length local_part \<le> 2 then ''XX'' else take 2 local_part @ ''XXX'')
             @ ''@'' @ domain_part"
    if at: "CHR ''@'' \<in> set s"
  proof -
    obtain l d where s: "s = l @ CHR ''@'' # d" and l: "CHR ''@'' \<notin> set l"
      using contains_split [OF at] by blast
    have m: "mask_local l = (if length l \<le> 2 then ''XX'' else take 2 l @ ''XXX'')"
      by (rule mask_local_def)
    have u: "obfuscate_upi_identifier s =
               (if length l \<le> 2 then ''XX'' else take 2 l @ ''XXX'') @ ''@'' @ d"
      unfolding s upi_with_at [OF l] m by simp
    have e: "obfuscate_email_address s =
               (if length l \<le> 2 then ''XX'' else take 2 l @ ''XXX'') @ ''@'' @ d"
      unfolding s email_with_at [OF l] m by simp
    have s': "s = l @ ''@'' @ d"
      unfolding s by simp
    show ?thesis
      using s' l u e by blast
  qed
  show ?thesis
    using with_at upi_without_at email_without_at by blast
qed

theorem handle_and_email_masking_witness:
  "(obfuscate_upi_identifier ''asha.verma'' = ''[REDACTED_PII]'' \<and>
    obfuscate_email_address ''asha.verma'' = ''asha.verma'') \<and>
   (\<exists>local_part domain_part.
      ''asha@mail.com'' = local_part @ ''@'' @ domain_part \<and> CHR ''@'' \<notin> set local_part \<and>
      obfuscate_upi_identifier ''asha@mail.com'' =
        (if length local_part \<le> 2 then ''XX'' else take 2 local_part @ ''XXX'')
          @ ''@'' @ domain_part \<and>
      obfuscate_email_address ''asha@mail.com'' =
        (if length local_part \<le> 2 then ''XX'' else take 2 local_part @ ''XXX'')
          @ ''@'' @ domain_part) \<and>
   obfuscate_email_address ''asha@mail.com'' = ''asXXX@mail.com'' \<and>
   obfuscate_upi_identifier ''as@okbank'' = ''XX@okbank''"
proof -
  have n: "CHR ''@'' \<notin> set ''asha.verma''"
    by simp
  have y: "CHR ''@'' \<in> set ''asha@mail.com''"
    by simp
  have e: "obfuscate_email_address ''asha@mail.com'' = ''asXXX@mail.com''"
    by code_simp
  have a: "obfuscate_upi_identifier ''as@okbank'' = ''XX@okbank''"
    by code_simp
  show ?thesis
    using n y e a handle_and_email_masking [of "''asha.verma''"]
      handle_and_email_masking [of "''asha@mail.com''"]
    by blast
qed

text \<open>
  C5 (as amended). The address masker keeps the first three characters of a text of at
  least three characters and then writes \<^verbatim>\<open>XXX\<close> and \<^verbatim>\<open>...\<close>; for a shorter text it
  writes \<^verbatim>\<open>XXX...\<close> and keeps none of its characters. Where the text holds a run of
  exactly six digits with a word boundary on both sides, the leftmost such run, and only
  that one, is appended after a comma and a space; where it holds none, nothing is
  appended.
\<close>

theorem address_masking:
  "(length s < 3 \<longrightarrow> obfuscate_physical_address s = ''XXX...'') \<and>
   (3 \<le> length s \<and> (\<forall>i. \<not> postal_at s i) \<longrightarrow>
      obfuscate_physical_address s = take 3 s @ ''XXX'' @ ''...'') \<and>
   (\<forall>i. postal_at s i \<and> (\<forall>j<i. \<not> postal_at s j) \<longrightarrow>
      obfuscate_physical_address s = take 3 s @ ''XXX'' @ ''...'' @ '', '' @ take 6 (drop i s))"
proof (intro conjI impI allI)
  assume "length s < 3"
  then have "\<forall>i. \<not> postal_at s i" by (simp add: short_no_postal)
  then show "obfuscate_physical_address s = ''XXX...''"
    using \<open>length s < 3\<close> by (simp add: address_without_postal)
next
  assume "3 \<le> length s \<and> (\<forall>i. \<not> postal_at s i)"
  then show "obfuscate_physical_address s = take 3 s @ ''XXX'' @ ''...''"
    by (simp add: address_without_postal)
next
  fix i assume "postal_at s i \<and> (\<forall>j<i. \<not> postal_at s j)"
  then show "obfuscate_physical_address s = take 3 s @ ''XXX'' @ ''...'' @ '', '' @ take 6 (drop i s)"
    using address_with_postal by blast
qed

theorem address_masking_witness:
  "obfuscate_physical_address ''ab'' = ''XXX...'' \<and>
   obfuscate_physical_address ''221B Baker Street'' = ''221XXX...'' \<and>
   obfuscate_physical_address ''12 MG Road 560001 Bangalore 560002'' = ''12 XXX..., 560001''"
proof -
  have short: "length ''ab'' < 3"
    by simp
  have long: "3 \<le> length ''221B Baker Street''"
    by simp
  have scan: "list_all (\<lambda>i. \<not> postal_at ''221B Baker Street'' i) [0..<length ''221B Baker Street'']"
    by code_simp
  have here: "postal_at ''12 MG Road 560001 Bangalore 560002'' 11"
    by code_simp
  have before: "list_all (\<lambda>j. \<not> postal_at ''12 MG Road 560001 Bangalore 560002'' j) [0..<11]"
    by code_simp
  have a: "obfuscate_physical_address ''ab'' = ''XXX...''"
    using short address_masking [of "''ab''"] by blast
  have b: "obfuscate_physical_address ''221B Baker Street''
             = take 3 ''221B Baker Street'' @ ''XXX'' @ ''...''"
    using long no_postal_by_scan [OF scan] address_masking [of "''221B Baker Street''"] by blast
  have c: "obfuscate_physical_address ''12 MG Road 560001 Bangalore 560002''
             = take 3 ''12 MG Road 560001 Bangalore 560002'' @ ''XXX'' @ ''...'' @ '', ''
               @ take 6 (drop 11 ''12 MG Road 560001 Bangalore 560002'')"
    using here none_before_by_scan [OF before]
      address_masking [of "''12 MG Road 560001 Bangalore 560002''"] by blast
  show ?thesis
    using a b c by simp
qed

text \<open>
  C5 as stated fails twice. A text of one or two characters is not kept in front of
  \<^verbatim>\<open>XXX\<close>: \<^verbatim>\<open>ab\<close> gives \<^verbatim>\<open>XXX...\<close>, not \<^verbatim>\<open>abXXX...\<close>. And of two postal codes in
  a text only the first is in the output.
\<close>

theorem address_masking_counterexample:
  "obfuscate_physical_address ''ab'' = ''XXX...'' \<and>
   obfuscate_physical_address ''ab'' \<noteq> ''ab'' @ ''XXX'' @ ''...'' \<and>
   postal_at ''560001 110001'' 7 \<and>
   obfuscate_physical_address ''560001 110001'' = ''560XXX..., 560001''"
  by code_simp

text \<open>
  C4 (as amended). The standalone detector compares field names case-insensitively: two
  records that hold the same values under names that agree once lowercased get the same
  answer. The combinatorial scorer does not: it reads the record only at the exact
  spellings \<^verbatim>\<open>email\<close>, \<^verbatim>\<open>alt_email\<close>, \<^verbatim>\<open>username\<close>, \<^verbatim>\<open>name\<close>, \<^verbatim>\<open>first_name\<close>,
  \<^verbatim>\<open>last_name\<close>, \<^verbatim>\<open>address\<close>, \<^verbatim>\<open>ip\<close>, \<^verbatim>\<open>ip_address\<close>, \<^verbatim>\<open>device_id\<close>, the four
  phone names and \<^verbatim>\<open>city\<close>, \<^verbatim>\<open>state\<close>, \<^verbatim>\<open>pin_code\<close>, so two records that agree at
  those keys have the same score, whatever else they hold under names of another case.
\<close>

theorem detector_ignores_case_scorer_does_not:
  "(lowered r = lowered r' \<longrightarrow> contains_individual_pii r = contains_individual_pii r') \<and>
   ((\<forall>k \<in> set scorer_fields. dict_get r k = dict_get r' k) \<longrightarrow>
      count_combinatorial_elements r = count_combinatorial_elements r')"
  using detector_lowered scorer_reads_exact_keys by blast

theorem detector_ignores_case_scorer_does_not_witness:
  "contains_individual_pii [(''PHONE'', JStr ''9876543210'')]
     = contains_individual_pii [(''phone'', JStr ''9876543210'')] \<and>
   count_combinatorial_elements [(''name'', JStr ''Asha Verma''), (''Email'', JStr ''a@b.co'')]
     = count_combinatorial_elements [(''name'', JStr ''Asha Verma'')]"
proof -
  have l: "lowered [(''PHONE'', JStr ''9876543210'')] = lowered [(''phone'', JStr ''9876543210'')]"
    by code_simp
  have "list_all (\<lambda>k. dict_get [(''name'', JStr ''Asha Verma''), (''Email'', JStr ''a@b.co'')] k
                       = dict_get [(''name'', JStr ''Asha Verma'')] k) scorer_fields"
    by code_simp
  then have s: "\<forall>k \<in> set scorer_fields.
                  dict_get [(''name'', JStr ''Asha Verma''), (''Email'', JStr ''a@b.co'')] k
                    = dict_get [(''name'', JStr ''Asha Verma'')] k"
    by (simp add: list_all_iff)
  show ?thesis
    using l s
      detector_ignores_case_scorer_does_not
        [of "[(''PHONE'', JStr ''9876543210'')]" "[(''phone'', JStr ''9876543210'')]"]
      detector_ignores_case_scorer_does_not
        [of "[(''name'', JStr ''Asha Verma''), (''Email'', JStr ''a@b.co'')]"
            "[(''name'', JStr ''Asha Verma'')]"]
    by blast
qed

text \<open>
  C4 as stated fails for each scorer check it names: with the field name in another case
  the email, device-id, network-address, address and phone-context checks do not see the
  field, and the score drops.
\<close>

theorem scorer_case_counterexample:
  "count_combinatorial_elements [(''name'', JStr ''Asha Verma''), (''email'', JStr ''a@b.co'')] = 2 \<and>
   count_combinatorial_elements [(''name'', JStr ''Asha Verma''), (''Email'', JStr ''a@b.co'')] = 1 \<and>
   count_combinatorial_elements [(''name'', JStr ''Asha Verma''), (''device_id'', JStr ''abc123456'')] = 2 \<and>
   count_combinatorial_elements [(''name'', JStr ''Asha Verma''), (''Device_ID'', JStr ''abc123456'')] = 1 \<and>
   count_combinatorial_elements [(''name'', JStr ''Asha Verma''), (''ip'', JStr ''10.0.0.1'')] = 2 \<and>
   count_combinatorial_elements [(''name'', JStr ''Asha Verma''), (''IP'', JStr ''10.0.0.1'')] = 1 \<and>
   count_combinatorial_elements
     [(''name'', JStr ''Asha Verma''), (''address'', JStr ''12 MG Road''), (''city'', JStr ''Pune'')] = 2 \<and>
   count_combinatorial_elements
     [(''name'', JStr ''Asha Verma''), (''Address'', JStr ''12 MG Road''), (''city'', JStr ''Pune'')] = 1 \<and>
   count_combinatorial_elements
     [(''phone'', JStr ''n/a''), (''device_id'', JStr ''abc123456''), (''ip'', JStr ''10.0.0.1'')] = 2 \<and>
   count_combinatorial_elements
     [(''Phone'', JStr ''n/a''), (''device_id'', JStr ''abc123456''), (''ip'', JStr ''10.0.0.1'')] = 0"
  by code_simp

end
